theory Spec2Isabelle
  imports Main "HOL-Library.Word"
begin

unbundle bit_operations_syntax

section \<open>Data model\<close>

text \<open>
  A \<^verbatim>\<open>Uint8Array\<close> is the list of its bytes.  Every array this program handles views
  its whole buffer from offset 0 (the callers build them with
  \<^verbatim>\<open>new Uint8Array(arrayBuffer)\<close>, and \<^verbatim>\<open>slice\<close> allocates a fresh buffer), so
  \<^verbatim>\<open>arr.buffer\<close> holds the same bytes as \<^verbatim>\<open>arr\<close>.

  A JavaScript string is the list of its Unicode code points; lengths, offsets and the
  sequence counter are natural numbers; the frame delay is an integer (the page takes
  it from a slider with integer steps).  Limits of the host on the size of arrays and
  of argument lists are outside the model.
\<close>

type_synonym byte = "8 word"
type_synonym bytes = "byte list"
type_synonym jsstring = "nat list"

text \<open>String literals of the source, as code point lists.\<close>

definition str :: "string \<Rightarrow> jsstring" where
  "str s = map of_char s"

text \<open>
  The exceptions the code can raise: the host's \<^verbatim>\<open>TypeError\<close> (a property read on
  \<^verbatim>\<open>undefined\<close>), the host's \<^verbatim>\<open>RangeError\<close> (a \<^verbatim>\<open>DataView\<close> read outside its
  bounds), and the program's own \<^verbatim>\<open>throw new Error(message)\<close>.
\<close>

datatype error = TypeError | RangeError | Error string

record PNGChunk =
  type :: jsstring
  data :: bytes

definition PNG_SIGNATURE :: bytes where
  "PNG_SIGNATURE = [137, 80, 78, 71, 13, 10, 26, 10]"

section \<open>Typed arrays and data views\<close>

text \<open>\<^verbatim>\<open>new Uint8Array(n)\<close>: n zero bytes.\<close>

definition new_Uint8Array :: "nat \<Rightarrow> bytes" where
  "new_Uint8Array n = replicate n 0"

text \<open>
  \<^verbatim>\<open>arr.slice(start, end)\<close> for \<^verbatim>\<open>0 <= start <= end\<close>: both ends are clamped to the
  length of the array, it never raises.
\<close>

definition u8_slice :: "bytes \<Rightarrow> nat \<Rightarrow> nat \<Rightarrow> bytes" where
  "u8_slice arr start stop = take (stop - start) (drop start arr)"

text \<open>
  \<^verbatim>\<open>target.set(src, offset)\<close>.  The host raises a RangeError when the source does not
  fit; every call of this program writes into an array allocated in the same function
  with the summed length of its parts, so that branch leaves the target as it is.
\<close>

definition u8_set :: "bytes \<Rightarrow> bytes \<Rightarrow> nat \<Rightarrow> bytes" where
  "u8_set target src offset =
     (if offset + length src \<le> length target
      then take offset target @ src @ drop (offset + length src) target
      else target)"

text \<open>Big-endian encodings written by \<^verbatim>\<open>setUint32\<close>, \<^verbatim>\<open>setUint16\<close>, \<^verbatim>\<open>setUint8\<close>:
  the value is first reduced modulo 2^32, 2^16, 2^8 (ToUint32, ToUint16, ToUint8).\<close>

definition u32_be :: "nat \<Rightarrow> bytes" where
  "u32_be v = (let w = v mod 2 ^ 32 in
     [of_nat (w div 2 ^ 24), of_nat (w div 2 ^ 16 mod 256), of_nat (w div 2 ^ 8 mod 256),
      of_nat (w mod 256)])"

definition u16_be :: "nat \<Rightarrow> bytes" where
  "u16_be v = (let w = v mod 2 ^ 16 in [of_nat (w div 2 ^ 8), of_nat (w mod 256)])"

text \<open>
  Writes through a \<^verbatim>\<open>DataView\<close> of the whole array.  As for \<^verbatim>\<open>set\<close>, the writes of
  this program are at constant offsets inside arrays of constant size.
\<close>

definition setUint32 :: "bytes \<Rightarrow> nat \<Rightarrow> nat \<Rightarrow> bytes" where
  "setUint32 view byteOffset v = u8_set view (u32_be v) byteOffset"

definition setUint16 :: "bytes \<Rightarrow> nat \<Rightarrow> int \<Rightarrow> bytes" where
  "setUint16 view byteOffset v = u8_set view (u16_be (nat (v mod 2 ^ 16))) byteOffset"

definition setUint8 :: "bytes \<Rightarrow> nat \<Rightarrow> nat \<Rightarrow> bytes" where
  "setUint8 view byteOffset v = u8_set view [of_nat (v mod 256)] byteOffset"

text \<open>
  Reads through a \<^verbatim>\<open>DataView\<close>: \<^verbatim>\<open>getUint32(o)\<close> on a view of \<^verbatim>\<open>n\<close> bytes raises
  a RangeError unless \<^verbatim>\<open>o + 4 <= n\<close>.
\<close>

definition be_val :: "bytes \<Rightarrow> nat" where
  "be_val bs = foldl (\<lambda>acc b. acc * 256 + unat b) 0 bs"

definition getUint32 :: "bytes \<Rightarrow> nat \<Rightarrow> error + nat" where
  "getUint32 view byteOffset =
     (if byteOffset + 4 \<le> length view then Inr (be_val (u8_slice view byteOffset (byteOffset + 4)))
      else Inl RangeError)"

definition getUint16 :: "bytes \<Rightarrow> nat \<Rightarrow> error + nat" where
  "getUint16 view byteOffset =
     (if byteOffset + 2 \<le> length view then Inr (be_val (u8_slice view byteOffset (byteOffset + 2)))
      else Inl RangeError)"

section \<open>Text encoding\<close>

text \<open>
  \<^verbatim>\<open>new TextDecoder().decode(bytes)\<close>: the UTF-8 decoder of the Encoding Standard, not
  fatal: every malformed sequence becomes U+FFFD, and the byte that broke a sequence is
  read again.  The arguments are the code point under construction, the continuation
  bytes seen and needed, and the bounds for the next continuation byte.
\<close>

fun utf8_decode_from :: "nat \<Rightarrow> nat \<Rightarrow> nat \<Rightarrow> nat \<Rightarrow> nat \<Rightarrow> bytes \<Rightarrow> jsstring" where
  "utf8_decode_from cp seen needed lo hi [] = (if needed \<noteq> 0 then [0xFFFD] else [])"
| "utf8_decode_from cp seen needed lo hi (b # bs) =
     (let v = unat b in
      if needed = 0 then
        (if v \<le> 0x7F then v # utf8_decode_from 0 0 0 0x80 0xBF bs
         else if 0xC2 \<le> v \<and> v \<le> 0xDF then utf8_decode_from (v mod 32) 0 1 0x80 0xBF bs
         else if 0xE0 \<le> v \<and> v \<le> 0xEF then
           utf8_decode_from (v mod 16) 0 2 (if v = 0xE0 then 0xA0 else 0x80)
             (if v = 0xED then 0x9F else 0xBF) bs
         else if 0xF0 \<le> v \<and> v \<le> 0xF4 then
           utf8_decode_from (v mod 8) 0 3 (if v = 0xF0 then 0x90 else 0x80)
             (if v = 0xF4 then 0x8F else 0xBF) bs
         else 0xFFFD # utf8_decode_from 0 0 0 0x80 0xBF bs)
      else if v < lo \<or> hi < v then 0xFFFD # utf8_decode_from 0 0 0 0x80 0xBF (b # bs)
      else if Suc seen = needed then
        (cp * 64 + v mod 64) # utf8_decode_from 0 0 0 0x80 0xBF bs
      else utf8_decode_from (cp * 64 + v mod 64) (Suc seen) needed 0x80 0xBF bs)"

text \<open>The decoder drops a leading byte order mark (\<^verbatim>\<open>ignoreBOM\<close> is false).\<close>

definition TextDecoder_decode :: "bytes \<Rightarrow> jsstring" where
  "TextDecoder_decode bs =
     (if take 3 bs = [0xEF, 0xBB, 0xBF] then utf8_decode_from 0 0 0 0x80 0xBF (drop 3 bs)
      else utf8_decode_from 0 0 0 0x80 0xBF bs)"

text \<open>
  \<^verbatim>\<open>new TextEncoder().encode(s)\<close>: UTF-8; a lone surrogate is encoded as U+FFFD.
\<close>

definition utf8_encode_cp :: "nat \<Rightarrow> bytes" where
  "utf8_encode_cp c =
     (let cp = (if 0xD800 \<le> c \<and> c \<le> 0xDFFF then 0xFFFD else c) in
      if cp < 0x80 then [of_nat cp]
      else if cp < 0x800 then [of_nat (0xC0 + cp div 64), of_nat (0x80 + cp mod 64)]
      else if cp < 0x10000 then
        [of_nat (0xE0 + cp div 4096), of_nat (0x80 + cp div 64 mod 64), of_nat (0x80 + cp mod 64)]
      else
        [of_nat (0xF0 + cp div 262144), of_nat (0x80 + cp div 4096 mod 64),
         of_nat (0x80 + cp div 64 mod 64), of_nat (0x80 + cp mod 64)])"

definition TextEncoder_encode :: "jsstring \<Rightarrow> bytes" where
  "TextEncoder_encode s = concat (map utf8_encode_cp s)"

section \<open>Checksum\<close>

text \<open>
  The table is filled once: entry i is i after eight rounds of the shift-and-xor step.
  The 32-bit operators of the source (\<^verbatim>\<open>>>>\<close>, \<^verbatim>\<open>^\<close>, \<^verbatim>\<open>&\<close>) act on the bit pattern,
  a 32-bit word; the table is a \<^verbatim>\<open>Uint32Array\<close>.
\<close>

definition crc_round :: "32 word \<Rightarrow> 32 word" where
  "crc_round c = (if c AND 1 \<noteq> 0 then 0xEDB88320 XOR drop_bit 1 c else drop_bit 1 c)"

definition crcTable :: "32 word list" where
  "crcTable = map (\<lambda>i. (crc_round ^^ 8) (of_nat i)) [0..<256]"

definition crc32_loop :: "bytes \<Rightarrow> 32 word \<Rightarrow> 32 word" where
  "crc32_loop dat crc0 =
     foldl (\<lambda>crc b. drop_bit 8 crc XOR crcTable ! unat ((crc XOR ucast b) AND 0xFF)) crc0 dat"

definition crc32 :: "bytes \<Rightarrow> 32 word" where
  "crc32 dat = crc32_loop dat (- 1) XOR (- 1)"

section \<open>Chunk serializer\<close>

definition createChunk :: "jsstring \<Rightarrow> bytes \<Rightarrow> bytes" where
  "createChunk ty dat =
     (let len = setUint32 (new_Uint8Array 4) 0 (length dat);
          typeArray = TextEncoder_encode ty;
          crc = new_Uint8Array 4;
          crcData = new_Uint8Array (length typeArray + length dat);
          crcData = u8_set crcData typeArray 0;
          crcData = u8_set crcData dat (length typeArray);
          crc = setUint32 crc 0 (unat (crc32 crcData));
          chunk = new_Uint8Array (length len + length typeArray + length dat + length crc);
          chunk = u8_set chunk len 0;
          chunk = u8_set chunk typeArray (length len);
          chunk = u8_set chunk dat (length len + length typeArray);
          chunk = u8_set chunk crc (length len + length typeArray + length dat)
      in chunk)"

section \<open>Chunk parser\<close>

text \<open>
  The loop of \<^verbatim>\<open>extractAllChunks\<close>, with its variables \<^verbatim>\<open>offset\<close> and \<^verbatim>\<open>chunks\<close>.
  \<^verbatim>\<open>new DataView(pngData.buffer, offset).getUint32(0)\<close> is a read of four bytes at
  \<^verbatim>\<open>offset\<close> of the whole buffer; it is the only operation of the loop that can raise.
\<close>

function extractAllChunks_loop :: "bytes \<Rightarrow> nat \<Rightarrow> PNGChunk list \<Rightarrow> error + PNGChunk list" where
  "extractAllChunks_loop pngData offset chunks =
     (if offset < length pngData then
        (case getUint32 pngData offset of
           Inl e \<Rightarrow> Inl e
         | Inr chunkLength \<Rightarrow>
             (let chunkType = TextDecoder_decode (u8_slice pngData (offset + 4) (offset + 8));
                  chunkData = u8_slice pngData (offset + 8) (offset + 8 + chunkLength);
                  chunks' = chunks @ [\<lparr>type = chunkType, data = chunkData\<rparr>];
                  offset' = offset + chunkLength + 12
              in if chunkType = str ''IEND'' then Inr chunks'
                 else extractAllChunks_loop pngData offset' chunks'))
      else Inr chunks)"
  by pat_completeness auto
termination
  by (relation "measure (\<lambda>(pngData, offset, chunks). length pngData - offset)") auto

definition extractAllChunks :: "bytes \<Rightarrow> error + PNGChunk list" where
  "extractAllChunks pngData = extractAllChunks_loop pngData 8 []"


section \<open>Animation chunk builders\<close>

definition createActlChunk :: "nat \<Rightarrow> bytes" where
  "createActlChunk numFrames =
     (let dat = new_Uint8Array 8;
          dat = setUint32 dat 0 numFrames;
          dat = setUint32 dat 4 0
      in createChunk (str ''acTL'') dat)"

definition fctl_data :: "nat \<Rightarrow> nat \<Rightarrow> nat \<Rightarrow> int \<Rightarrow> bytes" where
  "fctl_data sequenceNumber width height delay =
     (let dat = new_Uint8Array 26;
          dat = setUint32 dat 0 sequenceNumber;
          dat = setUint32 dat 4 width;
          dat = setUint32 dat 8 height;
          dat = setUint32 dat 12 0;
          dat = setUint32 dat 16 0;
          dat = setUint16 dat 20 delay;
          dat = setUint16 dat 22 1000;
          dat = setUint8 dat 24 0;
          dat = setUint8 dat 25 0
      in dat)"

definition createFctlChunk :: "nat \<Rightarrow> nat \<Rightarrow> nat \<Rightarrow> int \<Rightarrow> bytes" where
  "createFctlChunk sequenceNumber width height delay =
     createChunk (str ''fcTL'') (fctl_data sequenceNumber width height delay)"

definition fdat_data :: "bytes \<Rightarrow> nat \<Rightarrow> bytes" where
  "fdat_data idatChunk sequenceNumber =
     (let fdatData = new_Uint8Array (length idatChunk + 4);
          fdatData = setUint32 fdatData 0 sequenceNumber;
          fdatData = u8_set fdatData idatChunk 4
      in fdatData)"

definition createFdatChunks :: "bytes list \<Rightarrow> nat \<Rightarrow> bytes list" where
  "createFdatChunks idatChunks startSequenceNumber =
     map (\<lambda>(idatChunk, index). createChunk (str ''fdAT'') (fdat_data idatChunk (startSequenceNumber + index)))
       (zip idatChunks [0..<length idatChunks])"

section \<open>Assembler\<close>

definition concatenateUint8Arrays :: "bytes list \<Rightarrow> bytes" where
  "concatenateUint8Arrays arrays =
     (let totalLength = foldl (\<lambda>sum arr. sum + length arr) 0 arrays;
          result = new_Uint8Array totalLength
      in fst (foldl (\<lambda>(result, offset) arr. (u8_set result arr offset, offset + length arr))
                (result, 0) arrays))"

text \<open>
  The frame loop of \<^verbatim>\<open>createAPNG\<close> (\<^verbatim>\<open>for (let i = 0; i < images.length; i++)\<close>) with
  its variables \<^verbatim>\<open>i\<close>, \<^verbatim>\<open>sequenceNumber\<close> and \<^verbatim>\<open>chunks\<close>; it returns the array of
  emitted chunks and the final counter.  An exception of the parser leaves the loop.
\<close>

function frame_loop ::
  "bytes list \<Rightarrow> nat \<Rightarrow> nat \<Rightarrow> int \<Rightarrow> nat \<Rightarrow> nat \<Rightarrow> bytes list \<Rightarrow> error + bytes list \<times> nat" where
  "frame_loop images width height delay i sequenceNumber chunks =
     (if i < length images then
        (let chunks1 = chunks @ [createFctlChunk sequenceNumber width height delay];
             sequenceNumber1 = sequenceNumber + 1
         in case extractAllChunks (images ! i) of
              Inl e \<Rightarrow> Inl e
            | Inr imageChunks \<Rightarrow>
                (let idatChunks = map data (filter (\<lambda>chunk. type chunk = str ''IDAT'') imageChunks)
                 in if i = 0 then
                      frame_loop images width height delay (i + 1) sequenceNumber1
                        (chunks1 @ map (\<lambda>idatData. createChunk (str ''IDAT'') idatData) idatChunks)
                    else
                      frame_loop images width height delay (i + 1)
                        (sequenceNumber1 + length idatChunks)
                        (chunks1 @ createFdatChunks idatChunks sequenceNumber1)))
      else Inr (chunks, sequenceNumber))"
  by pat_completeness auto
termination
  by (relation "measure (\<lambda>(images, width, height, delay, i, sequenceNumber, chunks). length images - i)")
    auto

text \<open>
  \<^verbatim>\<open>createAPNG\<close> up to the array \<^verbatim>\<open>chunks\<close> it concatenates.  \<^verbatim>\<open>images[0]\<close> of an
  empty array is \<^verbatim>\<open>undefined\<close>, and \<^verbatim>\<open>extractAllChunks(undefined)\<close> raises a TypeError
  when it reads \<^verbatim>\<open>pngData.length\<close>.
\<close>

definition createAPNG_chunks :: "bytes list \<Rightarrow> int \<Rightarrow> error + bytes list" where
  "createAPNG_chunks images delay =
     (case images of
        [] \<Rightarrow> Inl TypeError
      | firstImage # _ \<Rightarrow>
          (case extractAllChunks firstImage of
             Inl e \<Rightarrow> Inl e
           | Inr firstImageChunks \<Rightarrow>
               (case find (\<lambda>chunk. type chunk = str ''IHDR'') firstImageChunks of
                  None \<Rightarrow> Inl (Error ''IHDR chunk not found in the first image'')
                | Some ihdrChunk \<Rightarrow>
                    (case getUint32 (data ihdrChunk) 0 of
                       Inl e \<Rightarrow> Inl e
                     | Inr width \<Rightarrow>
                         (case getUint32 (data ihdrChunk) 4 of
                            Inl e \<Rightarrow> Inl e
                          | Inr height \<Rightarrow>
                              (let chunks = [PNG_SIGNATURE] @
                                     map (\<lambda>chunk. createChunk (type chunk) (data chunk))
                                       (takeWhile (\<lambda>chunk. type chunk \<noteq> str ''IDAT'') firstImageChunks);
                                   chunks = chunks @ [createActlChunk (length images)]
                               in case frame_loop images width height delay 0 0 chunks of
                                    Inl e \<Rightarrow> Inl e
                                  | Inr (chunks, sequenceNumber) \<Rightarrow>
                                      Inr (chunks @ [createChunk (str ''IEND'') (new_Uint8Array 0)])))))))"

definition createAPNG :: "bytes list \<Rightarrow> int \<Rightarrow> error + bytes" where
  "createAPNG images delay =
     (case createAPNG_chunks images delay of
        Inl e \<Rightarrow> Inl e
      | Inr chunks \<Rightarrow> Inr (concatenateUint8Arrays chunks))"

text \<open>
  \<^verbatim>\<open>convertToAPNG\<close> catches every exception of \<^verbatim>\<open>createAPNG\<close>, logs it and returns
  \<^verbatim>\<open>undefined\<close>; otherwise it returns the binary (with an object URL and the elapsed
  time, which are not modelled).  The delay is passed explicitly; the source defaults
  it to 100.
\<close>

definition convertToAPNG :: "bytes list \<Rightarrow> int \<Rightarrow> bytes option" where
  "convertToAPNG images delay =
     (case createAPNG images delay of Inl e \<Rightarrow> None | Inr binary \<Rightarrow> Some binary)"

section \<open>Reference definitions\<close>

text \<open>
  The reflected CRC-32 as the format defines it, bit by bit: the register starts at
  0xFFFFFFFF; each input byte is xored into its low eight bits and the register is
  shifted right eight times, xoring the polynomial 0xEDB88320 in whenever the bit shifted
  out is set; the result is the complement of the register.
\<close>

definition crc_shift :: "32 word \<Rightarrow> 32 word" where
  "crc_shift c = (if bit c 0 then drop_bit 1 c XOR 0xEDB88320 else drop_bit 1 c)"

definition crc32_reflected :: "bytes \<Rightarrow> 32 word" where
  "crc32_reflected dat =
     NOT (foldl (\<lambda>reg b. (crc_shift ^^ 8) (reg XOR ucast b)) 0xFFFFFFFF dat)"

text \<open>
  A chunk on the wire, with whatever its checksum field holds: the parser does not
  look at it.  \<open>frame\<close> is the layout of the format: length, tag, payload, checksum.
\<close>

record wire_chunk =
  tag :: bytes
  payload :: bytes
  checksum :: bytes

definition frame :: "wire_chunk \<Rightarrow> bytes" where
  "frame c = u32_be (length (payload c)) @ tag c @ payload c @ checksum c"

definition png_of :: "wire_chunk list \<Rightarrow> bytes" where
  "png_of cs = PNG_SIGNATURE @ concat (map frame cs)"

definition ascii :: "bytes \<Rightarrow> bool" where
  "ascii bs = list_all (\<lambda>b. b < 0x80) bs"

definition tag_of :: "string \<Rightarrow> bytes" where
  "tag_of s = map of_char s"

text \<open>
  What the theorems need of a well-formed chunk: a tag of four ASCII bytes (the format
  asks for letters), a checksum field of four bytes and a payload within the format's
  bound of 2^31 - 1 bytes.
\<close>

definition chunk_ok :: "wire_chunk \<Rightarrow> bool" where
  "chunk_ok c \<longleftrightarrow>
     length (tag c) = 4 \<and> ascii (tag c) \<and> length (checksum c) = 4 \<and> length (payload c) < 2 ^ 31"

text \<open>What the parser needs to read a chunk back as it was framed.\<close>

definition framed :: "wire_chunk \<Rightarrow> bool" where
  "framed c \<longleftrightarrow> length (tag c) = 4 \<and> length (checksum c) = 4 \<and> length (payload c) < 2 ^ 32"

text \<open>
  What they need of a well-formed still image: it starts with the header chunk, whose
  payload holds at least width and height; image data comes before the end marker; it
  carries no animation chunk of its own.
\<close>

definition still_png :: "wire_chunk list \<Rightarrow> bool" where
  "still_png cs \<longleftrightarrow>
     list_all chunk_ok cs \<and>
     (case cs of [] \<Rightarrow> False | c # _ \<Rightarrow> tag c = tag_of ''IHDR'' \<and> 8 \<le> length (payload c)) \<and>
     list_ex (\<lambda>c. tag c = tag_of ''IDAT'') (takeWhile (\<lambda>c. tag c \<noteq> tag_of ''IEND'') cs) \<and>
     list_all (\<lambda>c. tag c \<notin> {tag_of ''acTL'', tag_of ''fcTL'', tag_of ''fdAT''}) cs"

text \<open>
  What parser and assembler need of an image, whether or not it carries animation
  chunks: the first three of these conditions.  And that an image has no
  animation-control and no frame-control chunk before its first image-data chunk.
\<close>

definition png_ok :: "wire_chunk list \<Rightarrow> bool" where
  "png_ok cs \<longleftrightarrow>
     list_all chunk_ok cs \<and>
     (case cs of [] \<Rightarrow> False | c # _ \<Rightarrow> tag c = tag_of ''IHDR'' \<and> 8 \<le> length (payload c)) \<and>
     list_ex (\<lambda>c. tag c = tag_of ''IDAT'') (takeWhile (\<lambda>c. tag c \<noteq> tag_of ''IEND'') cs)"

definition no_control_before_idat :: "wire_chunk list \<Rightarrow> bool" where
  "no_control_before_idat cs \<longleftrightarrow>
     list_all (\<lambda>c. tag c \<noteq> tag_of ''acTL'' \<and> tag c \<noteq> tag_of ''fcTL'')
       (takeWhile (\<lambda>c. tag c \<noteq> tag_of ''IDAT'') cs)"

text \<open>The chunk the parser makes of a wire chunk, and the chunks it reads from a stream:
  those up to and including the first end marker.\<close>

definition parsed :: "wire_chunk \<Rightarrow> PNGChunk" where
  "parsed c = \<lparr>type = TextDecoder_decode (tag c), data = payload c\<rparr>"

fun through_iend :: "wire_chunk list \<Rightarrow> wire_chunk list" where
  "through_iend [] = []"
| "through_iend (c # cs) =
     (if TextDecoder_decode (tag c) = str ''IEND'' then [c] else c # through_iend cs)"

text \<open>
  The sequence numbers of the frame-control and frame-data records in an array of
  emitted chunks, in emission order: the first four bytes of the payload of every chunk
  whose tag is fcTL or fdAT.
\<close>

definition seq_numbers :: "bytes list \<Rightarrow> nat list" where
  "seq_numbers chunks =
     map (\<lambda>c. be_val (u8_slice c 8 12))
       (filter (\<lambda>c. u8_slice c 4 8 = tag_of ''fcTL'' \<or> u8_slice c 4 8 = tag_of ''fdAT'') chunks)"

text \<open>The number of image-data chunks the parser finds in an image.\<close>

definition idat_count :: "bytes \<Rightarrow> nat" where
  "idat_count img =
     (case extractAllChunks img of
        Inl e \<Rightarrow> 0
      | Inr imageChunks \<Rightarrow> length (filter (\<lambda>chunk. type chunk = str ''IDAT'') imageChunks))"

text \<open>The chunks of the first image that the assembler copies: those before its first
  image-data chunk.\<close>

definition copied_chunks :: "bytes \<Rightarrow> PNGChunk list" where
  "copied_chunks firstImage =
     (case extractAllChunks firstImage of
        Inl e \<Rightarrow> []
      | Inr firstImageChunks \<Rightarrow> takeWhile (\<lambda>chunk. type chunk \<noteq> str ''IDAT'') firstImageChunks)"

text \<open>A chunk whose last four bytes are the CRC-32 of everything between its length
  field and them.\<close>

definition checksum_valid :: "bytes \<Rightarrow> bool" where
  "checksum_valid c \<longleftrightarrow>
     8 \<le> length c \<and>
     getUint32 c (length c - 4) = Inr (unat (crc32 (u8_slice c 4 (length c - 4))))"

section \<open>The frame loop as a function of the parsed images\<close>

text \<open>Whether the parser returns for an image, and the payloads of the image-data
  chunks it finds.\<close>

definition parses :: "bytes \<Rightarrow> bool" where
  "parses img = (case extractAllChunks img of Inl e \<Rightarrow> False | Inr imageChunks \<Rightarrow> True)"

definition idats_of :: "bytes \<Rightarrow> bytes list" where
  "idats_of img =
     (case extractAllChunks img of
        Inl e \<Rightarrow> []
      | Inr imageChunks \<Rightarrow> map data (filter (\<lambda>chunk. type chunk = str ''IDAT'') imageChunks))"

text \<open>
  The chunks the frame loop emits and the counter it ends with, from the image-data
  payloads of the images still to process, the index \<open>i\<close> of the first of them and
  the counter \<open>s\<close> on entry.
\<close>

fun frame_chunks :: "bytes list list \<Rightarrow> nat \<Rightarrow> nat \<Rightarrow> int \<Rightarrow> nat \<Rightarrow> nat \<Rightarrow> bytes list" where
  "frame_chunks [] w h d i s = []"
| "frame_chunks (idats # rest) w h d i s =
     createFctlChunk s w h d #
       (if i = 0 then map (createChunk (str ''IDAT'')) idats @ frame_chunks rest w h d (Suc i) (Suc s)
        else createFdatChunks idats (Suc s) @ frame_chunks rest w h d (Suc i) (Suc s + length idats))"

fun frame_seq :: "bytes list list \<Rightarrow> nat \<Rightarrow> nat \<Rightarrow> nat" where
  "frame_seq [] i s = s"
| "frame_seq (idats # rest) i s =
     frame_seq rest (Suc i) (if i = 0 then Suc s else Suc s + length idats)"


section \<open>The emitted chunks as wire chunks\<close>

text \<open>The wire chunk that \<^verbatim>\<open>createChunk\<close> serializes, and the wire chunks of the frame
  loop.\<close>

definition wire :: "jsstring \<Rightarrow> bytes \<Rightarrow> wire_chunk" where
  "wire ty dat =
     \<lparr>tag = TextEncoder_encode ty, payload = dat,
      checksum = u32_be (unat (crc32 (TextEncoder_encode ty @ dat)))\<rparr>"

definition fdat_wires :: "bytes list \<Rightarrow> nat \<Rightarrow> wire_chunk list" where
  "fdat_wires idats s =
     map (\<lambda>(idat, k). wire (str ''fdAT'') (fdat_data idat (s + k))) (zip idats [0..<length idats])"

fun frame_wires :: "bytes list list \<Rightarrow> nat \<Rightarrow> nat \<Rightarrow> int \<Rightarrow> nat \<Rightarrow> nat \<Rightarrow> wire_chunk list" where
  "frame_wires [] w h d i s = []"
| "frame_wires (idats # rest) w h d i s =
     wire (str ''fcTL'') (fctl_data s w h d) #
       (if i = 0 then map (wire (str ''IDAT'')) idats @ frame_wires rest w h d (Suc i) (Suc s)
        else fdat_wires idats (Suc s) @ frame_wires rest w h d (Suc i) (Suc s + length idats))"

text \<open>
  The wire chunks of the assembled stream for a list of still images given as wire
  chunks: the copied chunks of the first image with their checksums recomputed, the
  animation-control chunk, the chunks of the frame loop, the end marker.
\<close>

definition assembled_wires :: "wire_chunk list list \<Rightarrow> int \<Rightarrow> wire_chunk list" where
  "assembled_wires css d =
     map (\<lambda>c. wire (type (parsed c)) (payload c))
       (takeWhile (\<lambda>c. tag c \<noteq> tag_of ''IDAT'') (hd css)) @
     wire (str ''acTL'') (u32_be (length css) @ u32_be 0) #
     frame_wires (map (\<lambda>cs. idats_of (png_of cs)) css)
       (be_val (u8_slice (payload (hd (hd css))) 0 4))
       (be_val (u8_slice (payload (hd (hd css))) 4 8)) d 0 0 @
     [wire (str ''IEND'') []]"

section \<open>Example inputs\<close>

text \<open>A still image of width 1 and height 2 with one image-data chunk; the checksum
  fields hold arbitrary bytes.\<close>

definition ihdr_1x2 :: wire_chunk where
  "ihdr_1x2 = \<lparr>tag = tag_of ''IHDR'', payload = [0, 0, 0, 1, 0, 0, 0, 2, 8, 6, 0, 0, 0],
     checksum = [1, 2, 3, 4]\<rparr>"

definition idat_79 :: wire_chunk where
  "idat_79 = \<lparr>tag = tag_of ''IDAT'', payload = [7, 9], checksum = [1, 2, 3, 4]\<rparr>"

definition iend_0 :: wire_chunk where
  "iend_0 = \<lparr>tag = tag_of ''IEND'', payload = [], checksum = [1, 2, 3, 4]\<rparr>"

definition still_1x2 :: "wire_chunk list" where
  "still_1x2 = [ihdr_1x2, idat_79, iend_0]"

text \<open>Two copies of it, and the chunks the assembler makes of them with a delay of 100.\<close>

definition two_stills :: "bytes list" where
  "two_stills = [png_of still_1x2, png_of still_1x2]"

definition two_stills_frames :: "bytes list" where
  "two_stills_frames =
     [createFctlChunk 0 1 2 100, createChunk (str ''IDAT'') [7, 9],
      createFctlChunk 1 1 2 100, createChunk (str ''fdAT'') (fdat_data [7, 9] 2)]"

definition two_stills_chunks :: "bytes list" where
  "two_stills_chunks =
     [PNG_SIGNATURE, createChunk (str ''IHDR'') [0, 0, 0, 1, 0, 0, 0, 2, 8, 6, 0, 0, 0],
      createActlChunk 2] @ two_stills_frames @ [createChunk (str ''IEND'') []]"

text \<open>An image without a header chunk; a buffer that ends inside a length field; an image
  whose last chunk declares five payload bytes and holds two.\<close>

definition headless :: "bytes list" where
  "headless = [png_of [idat_79, iend_0]]"





text \<open>
  An image that is animated already: between header and image data it has an
  animation-control chunk with a frame count of 7 and a frame-control chunk with
  sequence number 0 and a delay of 50/1000.  The chunks the assembler makes of it
  alone with a delay of 100.
\<close>

definition actl_7 :: wire_chunk where
  "actl_7 = \<lparr>tag = tag_of ''acTL'', payload = [0, 0, 0, 7, 0, 0, 0, 0], checksum = [1, 2, 3, 4]\<rparr>"

definition fctl_50 :: wire_chunk where
  "fctl_50 = \<lparr>tag = tag_of ''fcTL'',
     payload = [0, 0, 0, 0, 0, 0, 0, 1, 0, 0, 0, 2, 0, 0, 0, 0, 0, 0, 0, 0, 0, 50, 3, 232, 0, 0],
     checksum = [1, 2, 3, 4]\<rparr>"

definition animated_1x2 :: "wire_chunk list" where
  "animated_1x2 = [ihdr_1x2, actl_7, fctl_50, idat_79, iend_0]"

definition animated :: "bytes list" where
  "animated = [png_of animated_1x2]"

definition animated_chunks :: "bytes list" where
  "animated_chunks =
     [PNG_SIGNATURE, createChunk (str ''IHDR'') [0, 0, 0, 1, 0, 0, 0, 2, 8, 6, 0, 0, 0],
      createChunk (str ''acTL'') [0, 0, 0, 7, 0, 0, 0, 0],
      createChunk (str ''fcTL'')
        [0, 0, 0, 0, 0, 0, 0, 1, 0, 0, 0, 2, 0, 0, 0, 0, 0, 0, 0, 0, 0, 50, 3, 232, 0, 0],
      createActlChunk 1, createFctlChunk 0 1 2 100, createChunk (str ''IDAT'') [7, 9],
      createChunk (str ''IEND'') []]"

text \<open>The same chunks as wire chunks, and as the parser reads them.\<close>

definition animated_wires :: "wire_chunk list" where
  "animated_wires =
     [wire (str ''IHDR'') [0, 0, 0, 1, 0, 0, 0, 2, 8, 6, 0, 0, 0],
      wire (str ''acTL'') [0, 0, 0, 7, 0, 0, 0, 0],
      wire (str ''fcTL'')
        [0, 0, 0, 0, 0, 0, 0, 1, 0, 0, 0, 2, 0, 0, 0, 0, 0, 0, 0, 0, 0, 50, 3, 232, 0, 0],
      wire (str ''acTL'') (u32_be 1 @ u32_be 0), wire (str ''fcTL'') (fctl_data 0 1 2 100),
      wire (str ''IDAT'') [7, 9], wire (str ''IEND'') []]"

definition animated_reparsed :: "PNGChunk list" where
  "animated_reparsed =
     [\<lparr>type = str ''IHDR'', data = [0, 0, 0, 1, 0, 0, 0, 2, 8, 6, 0, 0, 0]\<rparr>,
      \<lparr>type = str ''acTL'', data = [0, 0, 0, 7, 0, 0, 0, 0]\<rparr>,
      \<lparr>type = str ''fcTL'',
        data = [0, 0, 0, 0, 0, 0, 0, 1, 0, 0, 0, 2, 0, 0, 0, 0, 0, 0, 0, 0, 0, 50, 3, 232, 0, 0]\<rparr>,
      \<lparr>type = str ''acTL'', data = [0, 0, 0, 1, 0, 0, 0, 0]\<rparr>,
      \<lparr>type = str ''fcTL'', data = fctl_data 0 1 2 100\<rparr>,
      \<lparr>type = str ''IDAT'', data = [7, 9]\<rparr>,
      \<lparr>type = str ''IEND'', data = []\<rparr>]"

section \<open>Basic facts about arrays and views\<close>

declare extractAllChunks_loop.simps [simp del]
declare frame_loop.simps [simp del]

lemma length_PNG_SIGNATURE [simp]: "length PNG_SIGNATURE = 8"
  by (simp add: PNG_SIGNATURE_def)

lemma length_u32_be [simp]: "length (u32_be v) = 4"
  by (simp add: u32_be_def Let_def)

lemma length_u16_be [simp]: "length (u16_be v) = 2"
  by (simp add: u16_be_def Let_def)

lemma be_val_4:
  fixes w :: nat
  assumes "w < 2 ^ 32"
  shows "be_val [of_nat (w div 2 ^ 24), of_nat (w div 2 ^ 16 mod 256),
                 of_nat (w div 2 ^ 8 mod 256), of_nat (w mod 256) :: byte] = w"
proof -
  have "w div 2 ^ 24 < 256" using assms by simp
  then have "be_val [of_nat (w div 2 ^ 24), of_nat (w div 2 ^ 16 mod 256),
                 of_nat (w div 2 ^ 8 mod 256), of_nat (w mod 256) :: byte]
     = ((w div 2 ^ 24 * 256 + w div 2 ^ 16 mod 256) * 256 + w div 2 ^ 8 mod 256) * 256 + w mod 256"
    by (simp add: be_val_def unat_of_nat)
  also have "\<dots> = w"
  proof -
    have a: "w div 2 ^ 24 = w div 2 ^ 16 div 256" by (simp add: div_mult2_eq[symmetric])
    have b: "w div 2 ^ 16 = w div 2 ^ 8 div 256" by (simp add: div_mult2_eq[symmetric])
    have c: "w div 2 ^ 8 = w div 256" by simp
    show ?thesis unfolding a div_mult_mod_eq unfolding b div_mult_mod_eq unfolding c div_mult_mod_eq ..
  qed
  finally show ?thesis .
qed

lemma be_val_2:
  fixes w :: nat
  assumes "w < 2 ^ 16"
  shows "be_val [of_nat (w div 2 ^ 8), of_nat (w mod 256) :: byte] = w"
proof -
  have "w div 2 ^ 8 < 256" using assms by simp
  then have "be_val [of_nat (w div 2 ^ 8), of_nat (w mod 256) :: byte] = w div 2 ^ 8 * 256 + w mod 256"
    by (simp add: be_val_def unat_of_nat)
  also have "\<dots> = w" by simp
  finally show ?thesis .
qed

lemma be_val_u32_be [simp]: "be_val (u32_be v) = v mod 2 ^ 32"
  unfolding u32_be_def Let_def by (rule be_val_4) simp

lemma be_val_u16_be [simp]: "be_val (u16_be v) = v mod 2 ^ 16"
  unfolding u16_be_def Let_def by (rule be_val_2) simp

lemma createChunk_eq:
  "createChunk ty dat =
     u32_be (length dat) @ TextEncoder_encode ty @ dat @
     u32_be (unat (crc32 (TextEncoder_encode ty @ dat)))"
  by (simp add: createChunk_def Let_def setUint32_def new_Uint8Array_def u8_set_def)

lemma fctl_data_eq:
  "fctl_data s w h d =
     u32_be s @ u32_be w @ u32_be h @ u32_be 0 @ u32_be 0 @ u16_be (nat (d mod 2 ^ 16)) @
     u16_be 1000 @ [0, 0]"
  by (simp add: fctl_data_def Let_def setUint32_def setUint16_def setUint8_def new_Uint8Array_def u8_set_def)

lemma fdat_data_eq: "fdat_data idat s = u32_be s @ idat"
  by (simp add: fdat_data_def Let_def setUint32_def new_Uint8Array_def u8_set_def)

lemma createActlChunk_eq:
  "createActlChunk n = createChunk (str ''acTL'') (u32_be n @ u32_be 0)"
  by (simp add: createActlChunk_def Let_def setUint32_def new_Uint8Array_def u8_set_def)

lemma concat_loop:
  "length pre = offset \<Longrightarrow> length rest = length (concat arrays) \<Longrightarrow>
   fst (foldl (\<lambda>(result, offset) arr. (u8_set result arr offset, offset + length arr))
          (pre @ rest, offset) arrays) = pre @ concat arrays"
proof (induction arrays arbitrary: pre rest offset)
  case Nil
  then show ?case by simp
next
  case (Cons a as)
  have "u8_set (pre @ rest) a offset = (pre @ a) @ drop (length a) rest"
    using Cons.prems by (simp add: u8_set_def)
  then show ?case using Cons.prems Cons.IH[of "pre @ a" "offset + length a" "drop (length a) rest"]
    by simp
qed

lemma total_length: "foldl (\<lambda>sum arr. sum + length arr) n arrays = n + length (concat arrays)"
  by (induction arrays arbitrary: n) auto

lemma concatenateUint8Arrays_eq: "concatenateUint8Arrays arrays = concat arrays"
  using concat_loop[of "[]" 0 "replicate (length (concat arrays)) 0" arrays]
  by (simp add: concatenateUint8Arrays_def Let_def new_Uint8Array_def total_length)

section \<open>Text encoding of ASCII tags\<close>

lemma str_simps:
  "str ''IHDR'' = [73, 72, 68, 82]" "str ''IDAT'' = [73, 68, 65, 84]"
  "str ''IEND'' = [73, 69, 78, 68]" "str ''acTL'' = [97, 99, 84, 76]"
  "str ''fcTL'' = [102, 99, 84, 76]" "str ''fdAT'' = [102, 100, 65, 84]"
  by (simp_all add: str_def)

lemma tag_of_simps:
  "tag_of ''IHDR'' = [73, 72, 68, 82]" "tag_of ''IDAT'' = [73, 68, 65, 84]"
  "tag_of ''IEND'' = [73, 69, 78, 68]" "tag_of ''acTL'' = [97, 99, 84, 76]"
  "tag_of ''fcTL'' = [102, 99, 84, 76]" "tag_of ''fdAT'' = [102, 100, 65, 84]"
  by (simp_all add: tag_of_def)

lemma utf8_decode_ascii:
  "ascii bs \<Longrightarrow> utf8_decode_from 0 0 0 lo hi bs = map unat bs"
proof (induction bs arbitrary: lo hi)
  case Nil
  then show ?case by simp
next
  case (Cons b bs)
  then have "unat b \<le> 0x7F" by (simp add: ascii_def word_less_nat_alt)
  with Cons show ?case by (simp add: ascii_def)
qed

lemma TextDecoder_decode_ascii: "ascii bs \<Longrightarrow> TextDecoder_decode bs = map unat bs"
proof -
  assume a: "ascii bs"
  have "take 3 bs \<noteq> [0xEF, 0xBB, 0xBF]"
  proof
    assume "take 3 bs = [0xEF, 0xBB, 0xBF]"
    then have "0xEF \<in> set (take 3 bs)" by simp
    then have "(0xEF :: byte) \<in> set bs" by (rule in_set_takeD)
    with a show False by (simp add: ascii_def list_all_iff) fastforce
  qed
  with a show ?thesis by (simp add: TextDecoder_decode_def utf8_decode_ascii)
qed

lemma TextEncoder_encode_ascii: "ascii bs \<Longrightarrow> TextEncoder_encode (map unat bs) = bs"
proof (induction bs)
  case Nil
  then show ?case by (simp add: TextEncoder_encode_def)
next
  case (Cons b bs)
  then have "unat b < 0x80" by (simp add: ascii_def word_less_nat_alt)
  then have "utf8_encode_cp (unat b) = [b]" by (simp add: utf8_encode_cp_def)
  with Cons show ?case by (simp add: TextEncoder_encode_def ascii_def)
qed

lemma encode_str:
  "TextEncoder_encode (str ''IHDR'') = tag_of ''IHDR''"
  "TextEncoder_encode (str ''IDAT'') = tag_of ''IDAT''"
  "TextEncoder_encode (str ''IEND'') = tag_of ''IEND''"
  "TextEncoder_encode (str ''acTL'') = tag_of ''acTL''"
  "TextEncoder_encode (str ''fcTL'') = tag_of ''fcTL''"
  "TextEncoder_encode (str ''fdAT'') = tag_of ''fdAT''"
  by (simp_all add: str_simps tag_of_simps TextEncoder_encode_def utf8_encode_cp_def)

section \<open>The parser on framed streams\<close>

lemma slice_mid:
  "length a = n \<Longrightarrow> n + length b = m \<Longrightarrow> u8_slice (a @ b @ c) n m = b"
  by (auto simp: u8_slice_def)

lemma slice_mid_short:
  "length a = n \<Longrightarrow> n + length b \<le> m \<Longrightarrow> u8_slice (a @ b) n m = b"
  by (auto simp: u8_slice_def)

lemma through_iend_no_iend:
  "list_all (\<lambda>c. TextDecoder_decode (tag c) \<noteq> str ''IEND'') cs \<Longrightarrow> through_iend cs = cs"
  by (induction cs) auto

lemma parse_frames_rest:
  "list_all framed cs \<Longrightarrow>
   extractAllChunks_loop (pre @ concat (map frame cs) @ rest) (length pre) acc =
     (if list_ex (\<lambda>c. TextDecoder_decode (tag c) = str ''IEND'') cs
      then Inr (acc @ map parsed (through_iend cs))
      else extractAllChunks_loop (pre @ concat (map frame cs) @ rest)
             (length pre + length (concat (map frame cs))) (acc @ map parsed cs))"
proof (induction cs arbitrary: pre acc)
  case Nil
  then show ?case by simp
next
  case (Cons c cs)
  define tl where "tl = concat (map frame cs) @ rest"
  define buf where "buf = pre @ frame c @ tl"
  from Cons.prems have fc: "framed c" and cs: "list_all framed cs"
    by simp_all
  from fc have c: "length (tag c) = 4" "length (checksum c) = 4" "length (payload c) < 2 ^ 32"
    by (simp_all add: framed_def)
  have buf: "buf = pre @ u32_be (length (payload c)) @ tag c @ payload c @ checksum c @ tl"
    by (simp add: frame_def buf_def)
  have lt: "length pre < length buf" "length pre + 4 \<le> length buf"
    by (simp_all add: buf)
  have s1: "u8_slice buf (length pre) (length pre + 4) = u32_be (length (payload c))"
    unfolding buf by (rule slice_mid) simp_all
  have s2: "u8_slice buf (length pre + 4) (length pre + 8) = tag c"
    using slice_mid[of "pre @ u32_be (length (payload c))" "length pre + 4" "tag c" "length pre + 8"
        "payload c @ checksum c @ tl"] c
    by (simp add: buf)
  have s3: "u8_slice buf (length pre + 8) (length pre + 8 + length (payload c)) = payload c"
    using slice_mid[of "pre @ u32_be (length (payload c)) @ tag c" "length pre + 8" "payload c"
        "length pre + 8 + length (payload c)" "checksum c @ tl"] c
    by (simp add: buf)
  have g: "getUint32 buf (length pre) = Inr (length (payload c))"
    using lt c by (simp add: getUint32_def s1)
  have nxt: "length pre + length (payload c) + 12 = length (pre @ frame c)"
    using c by (simp add: frame_def)
  have b2: "(pre @ frame c) @ concat (map frame cs) @ rest = buf"
    by (simp add: buf_def tl_def)
  have ih: "extractAllChunks_loop buf (length pre + length (payload c) + 12) (acc @ [parsed c]) =
     (if list_ex (\<lambda>c. TextDecoder_decode (tag c) = str ''IEND'') cs
      then Inr ((acc @ [parsed c]) @ map parsed (through_iend cs))
      else extractAllChunks_loop buf
             (length (pre @ frame c) + length (concat (map frame cs))) ((acc @ [parsed c]) @ map parsed cs))"
    using Cons.IH[OF cs, of "pre @ frame c" "acc @ [parsed c]"] unfolding b2 nxt .
  have pc: "\<lparr>type = TextDecoder_decode (tag c), data = payload c\<rparr> = parsed c"
    by (simp add: parsed_def)
  have step: "extractAllChunks_loop buf (length pre) acc =
      (if type (parsed c) = str ''IEND'' then Inr (acc @ [parsed c])
       else extractAllChunks_loop buf (length pre + length (payload c) + 12) (acc @ [parsed c]))"
    apply (subst extractAllChunks_loop.simps)
    apply (simp only: lt if_True g sum.case Let_def s2 s3 pc)
    apply (simp add: parsed_def)
    done
  have b3: "pre @ concat (map frame (c # cs)) @ rest = buf"
    by (simp add: buf_def tl_def)
  have tp: "type (parsed c) = TextDecoder_decode (tag c)"
    by (simp add: parsed_def)
  show ?case unfolding b3 step ih
    by (simp add: tp add.assoc)
qed

lemma loop_done: "length buf \<le> offset \<Longrightarrow> extractAllChunks_loop buf offset acc = Inr acc"
  by (subst extractAllChunks_loop.simps) simp

lemma parse_frames:
  "list_all framed cs \<Longrightarrow>
   extractAllChunks_loop (pre @ concat (map frame cs)) (length pre) acc =
     Inr (acc @ map parsed (through_iend cs))"
  using parse_frames_rest[of cs pre "[]" acc]
  by (auto simp: loop_done through_iend_no_iend list_ex_iff list_all_iff)

lemma extractAllChunks_png_of:
  "list_all framed cs \<Longrightarrow>
   extractAllChunks (png_of cs) = Inr (map parsed (through_iend cs))"
  using parse_frames[of cs PNG_SIGNATURE "[]"]
  by (simp add: extractAllChunks_def png_of_def)





section \<open>The table-driven checksum\<close>

lemma crc_round_shift: "crc_round c = crc_shift c"
proof -
  have "c AND 1 \<noteq> 0 \<longleftrightarrow> bit c 0"
    by (simp add: and_one_eq bit_0 mod_2_eq_odd)
  then show ?thesis by (simp add: crc_round_def crc_shift_def xor.commute)
qed

lemma crc_shift_xor: "crc_shift (a XOR b) = crc_shift a XOR crc_shift b"
  by (simp add: crc_shift_def bit_xor_iff drop_bit_xor xor.assoc xor.left_commute xor.commute)
     

lemma crc_shift_pow_xor: "(crc_shift ^^ n) (a XOR b) = (crc_shift ^^ n) a XOR (crc_shift ^^ n) b"
  by (induction n) (simp_all add: crc_shift_xor)

lemma crc_shift_pow_high:
  "take_bit 8 x = 0 \<Longrightarrow> k \<le> 8 \<Longrightarrow> (crc_shift ^^ k) x = drop_bit k x"
proof (induction k)
  case 0
  then show ?case by simp
next
  case (Suc k)
  then have "k < 8" by simp
  have "\<not> bit (take_bit 8 x) k" using Suc.prems by simp
  then have "\<not> bit x k" using \<open>k < 8\<close> by (simp add: bit_take_bit_iff)
  then have "\<not> bit (drop_bit k x) 0" by (simp add: bit_drop_bit_eq)
  then have "crc_shift (drop_bit k x) = drop_bit (Suc k) x"
    by (simp add: crc_shift_def drop_bit_drop_bit)
  with Suc show ?case by simp
qed

lemma and_ff: "x AND 0xFF = take_bit 8 x" for x :: "32 word"
  by (simp add: take_bit_eq_mask mask_eq_exp_minus_1)

lemma split_low: "x = take_bit 8 x XOR push_bit 8 (drop_bit 8 x)" for x :: "32 word"
  by (rule bit_word_eqI) (auto simp: bit_simps dest: bit_imp_le_length)

lemma crc_shift_8:
  "(crc_shift ^^ 8) x = drop_bit 8 x XOR (crc_shift ^^ 8) (x AND 0xFF)"
proof -
  have hi: "take_bit 8 (push_bit 8 (drop_bit 8 x)) = 0"
    by (rule bit_word_eqI) (auto simp: bit_simps)
  have d: "drop_bit 8 (push_bit 8 (drop_bit 8 x)) = drop_bit 8 x"
    by (rule bit_word_eqI) (auto simp: bit_simps dest: bit_imp_le_length)
  have "(crc_shift ^^ 8) x = (crc_shift ^^ 8) (take_bit 8 x XOR push_bit 8 (drop_bit 8 x))"
    using split_low[of x] by simp
  also have "\<dots> = (crc_shift ^^ 8) (take_bit 8 x) XOR drop_bit 8 x"
    by (simp only: crc_shift_pow_xor crc_shift_pow_high[OF hi order_refl] d)
  finally show ?thesis by (simp add: xor.commute and_ff)
qed

lemma crcTable_nth: "crcTable ! unat (x AND 0xFF) = (crc_shift ^^ 8) (x AND 0xFF)" for x :: "32 word"
proof -
  have "x AND 0xFF \<le> 0xFF" by (rule word_and_le1)
  then have lt: "unat (x AND 0xFF) < 256" by (simp add: word_le_nat_alt)
  have "crc_round = crc_shift" by (rule ext) (rule crc_round_shift)
  with lt show ?thesis by (simp add: crcTable_def)
qed

lemma drop_bit_8_ucast: "drop_bit 8 (ucast (b :: byte) :: 32 word) = 0"
  by (rule bit_word_eqI) (auto simp: bit_simps dest: bit_imp_le_length)

lemma crc32_step:
  "drop_bit 8 crc XOR crcTable ! unat ((crc XOR ucast b) AND 0xFF) = (crc_shift ^^ 8) (crc XOR ucast b)"
  for b :: byte
  by (simp add: crcTable_nth crc_shift_8[of "crc XOR ucast b"] drop_bit_xor drop_bit_8_ucast)

lemma crc32_loop_bitwise:
  "crc32_loop dat reg = foldl (\<lambda>reg b. (crc_shift ^^ 8) (reg XOR ucast b)) reg dat"
  by (simp add: crc32_loop_def crc32_step)

lemma crc32_table_driven: "crc32 dat = crc32_reflected dat"
proof -
  have m1: "(0xFFFFFFFF :: 32 word) = - 1" by simp
  show ?thesis
    unfolding crc32_def crc32_reflected_def crc32_loop_bitwise m1 by simp
qed

lemma crc32_empty: "crc32 [] = 0"
  by (simp add: crc32_def crc32_loop_def)

section \<open>Facts about the builders\<close>

lemma u32_be_small: "n < 256 \<Longrightarrow> u32_be n = [0, 0, 0, of_nat n]"
  by (simp add: u32_be_def Let_def)

lemma fctl_delay_field: "u8_slice (fctl_data s w h d) 20 22 = u16_be (nat (d mod 2 ^ 16))"
  using slice_mid[of "u32_be s @ u32_be w @ u32_be h @ u32_be 0 @ u32_be 0" 20
      "u16_be (nat (d mod 2 ^ 16))" 22 "u16_be 1000 @ [0, 0]"]
  by (simp add: fctl_data_eq)

lemma length_fctl_data [simp]: "length (fctl_data s w h d) = 26"
  by (simp add: fctl_data_eq)

lemma createChunk_payload:
  "length (TextEncoder_encode ty) = 4 \<Longrightarrow> u8_slice (createChunk ty dat) 8 (8 + length dat) = dat"
  using slice_mid[of "u32_be (length dat) @ TextEncoder_encode ty" 8 dat "8 + length dat"]
  by (simp add: createChunk_eq)

lemma fctl_payload:
  "u8_slice (createFctlChunk s w h d) 8 34 = fctl_data s w h d"
  using createChunk_payload[of "str ''fcTL''" "fctl_data s w h d"]
  by (simp add: createFctlChunk_def encode_str tag_of_simps)

lemma fctl_delay_65636: "getUint16 (u8_slice (createFctlChunk 0 1 1 65636) 8 34) 20 = Inr 100"
  by (simp add: fctl_payload getUint16_def fctl_delay_field)

section \<open>Check values of the checksum\<close>

lemma funpow8: "(f ^^ 8) x = f (f (f (f (f (f (f (f x)))))))"
  by (simp add: eval_nat_numeral)

lemma crc_shift_div: "crc_shift c = (if odd c then c div 2 XOR 0xEDB88320 else c div 2)"
  by (simp add: crc_shift_def bit_0 drop_bit_eq_div)

lemma crc32_IEND: "crc32 [73, 69, 78, 68] = 0xAE426082"
  by (simp add: crc32_table_driven crc32_reflected_def funpow8 crc_shift_div)

lemma crc32_check: "crc32 [49, 50, 51, 52, 53, 54, 55, 56, 57] = 0xCBF43926"
  by (simp add: crc32_table_driven crc32_reflected_def funpow8 crc_shift_div)

section \<open>The frame loop\<close>

lemma extract_error: "extractAllChunks_loop pngData offset chunks = Inl e \<Longrightarrow> e = RangeError"
proof (induction pngData offset chunks rule: extractAllChunks_loop.induct)
  case (1 pngData offset chunks)
  show ?case
  proof (cases "offset < length pngData")
    case False
    with "1.prems" show ?thesis by (subst (asm) extractAllChunks_loop.simps) simp
  next
    case lt: True
    show ?thesis
    proof (cases "getUint32 pngData offset")
      case (Inl e')
      then have "e' = RangeError" by (simp add: getUint32_def split: if_splits)
      with "1.prems" lt Inl show ?thesis by (subst (asm) extractAllChunks_loop.simps) simp
    next
      case (Inr chunkLength)
      show ?thesis
      proof (cases "TextDecoder_decode (u8_slice pngData (offset + 4) (offset + 8)) = str ''IEND''")
        case True
        with "1.prems" lt Inr show ?thesis
          by (subst (asm) extractAllChunks_loop.simps) (simp add: Let_def)
      next
        case False
        from "1.prems" lt Inr False
        have "extractAllChunks_loop pngData (offset + chunkLength + 12)
                (chunks @ [\<lparr>type = TextDecoder_decode (u8_slice pngData (offset + 4) (offset + 8)),
                           data = u8_slice pngData (offset + 8) (offset + 8 + chunkLength)\<rparr>]) = Inl e"
          by (subst (asm) extractAllChunks_loop.simps) (simp add: Let_def)
        with "1.IH"[OF lt Inr refl refl refl refl False] show ?thesis by simp
      qed
    qed
  qed
qed

lemma extractAllChunks_error: "extractAllChunks img = Inl e \<Longrightarrow> e = RangeError"
  unfolding extractAllChunks_def by (rule extract_error)



lemma parses_Inr: "extractAllChunks img = Inr cs \<Longrightarrow> parses img"
  by (simp add: parses_def)

lemma idat_count_idats_of: "idat_count img = length (idats_of img)"
  by (simp add: idat_count_def idats_of_def split: sum.splits)

lemma frame_loop_done:
  "length images \<le> i \<Longrightarrow> frame_loop images w h d i s acc = Inr (acc, s)"
  by (subst frame_loop.simps) simp

lemma frame_loop_step:
  "i < length images \<Longrightarrow>
   frame_loop images w h d i s acc =
     (if parses (images ! i) then
        frame_loop images w h d (Suc i)
          (if i = 0 then Suc s else Suc s + length (idats_of (images ! i)))
          (acc @ createFctlChunk s w h d #
             (if i = 0 then map (createChunk (str ''IDAT'')) (idats_of (images ! i))
              else createFdatChunks (idats_of (images ! i)) (Suc s)))
      else Inl RangeError)"
  apply (subst frame_loop.simps)
  apply (cases "extractAllChunks (images ! i)")
   apply (auto simp: Let_def parses_def idats_of_def dest: extractAllChunks_error)
  done

lemma frame_loop_eq:
  "frame_loop images w h d i s acc =
     (if list_all parses (drop i images)
      then Inr (acc @ frame_chunks (map idats_of (drop i images)) w h d i s,
                frame_seq (map idats_of (drop i images)) i s)
      else Inl RangeError)"
proof (induction "length images - i" arbitrary: i s acc)
  case 0
  then show ?case by (simp add: frame_loop_done)
next
  case (Suc n)
  then have lt: "i < length images" and n: "n = length images - Suc i" by simp_all
  have d: "drop i images = images ! i # drop (Suc i) images"
    using lt by (simp add: Cons_nth_drop_Suc)
  show ?case
    unfolding frame_loop_step[OF lt] Suc.hyps(1)[OF n] d
    by simp
qed

section \<open>The results of the assembler\<close>

lemma createAPNG_chunks_Cons:
  assumes "extractAllChunks firstImage = Inr firstImageChunks"
    and "find (\<lambda>chunk. type chunk = str ''IHDR'') firstImageChunks = Some ihdrChunk"
    and "8 \<le> length (data ihdrChunk)"
  shows "createAPNG_chunks (firstImage # rest) delay =
     (if list_all parses rest then
        Inr (PNG_SIGNATURE #
             map (\<lambda>chunk. createChunk (type chunk) (data chunk))
               (takeWhile (\<lambda>chunk. type chunk \<noteq> str ''IDAT'') firstImageChunks) @
             createActlChunk (Suc (length rest)) #
             frame_chunks (map idats_of (firstImage # rest))
               (be_val (u8_slice (data ihdrChunk) 0 4)) (be_val (u8_slice (data ihdrChunk) 4 8)) delay 0 0 @
             [createChunk (str ''IEND'') []])
      else Inl RangeError)"
  using assms
  by (simp add: createAPNG_chunks_def getUint32_def frame_loop_eq parses_Inr new_Uint8Array_def)

lemma createAPNG_chunks_cases:
  "createAPNG_chunks images delay =
     (case images of
        [] \<Rightarrow> Inl TypeError
      | firstImage # rest \<Rightarrow>
          (case extractAllChunks firstImage of
             Inl e \<Rightarrow> Inl RangeError
           | Inr firstImageChunks \<Rightarrow>
               (case find (\<lambda>chunk. type chunk = str ''IHDR'') firstImageChunks of
                  None \<Rightarrow> Inl (Error ''IHDR chunk not found in the first image'')
                | Some ihdrChunk \<Rightarrow>
                    if length (data ihdrChunk) < 8 \<or> \<not> list_all parses rest then Inl RangeError
                    else Inr (PNG_SIGNATURE #
                       map (\<lambda>chunk. createChunk (type chunk) (data chunk))
                         (takeWhile (\<lambda>chunk. type chunk \<noteq> str ''IDAT'') firstImageChunks) @
                       createActlChunk (length images) #
                       frame_chunks (map idats_of images)
                         (be_val (u8_slice (data ihdrChunk) 0 4)) (be_val (u8_slice (data ihdrChunk) 4 8))
                         delay 0 0 @
                       [createChunk (str ''IEND'') []]))))"
proof (cases images)
  case Nil
  then show ?thesis by (simp add: createAPNG_chunks_def)
next
  case (Cons firstImage rest)
  show ?thesis
  proof (cases "extractAllChunks firstImage")
    case (Inl e)
    then have "e = RangeError" by (rule extractAllChunks_error)
    with Cons Inl show ?thesis by (simp add: createAPNG_chunks_def)
  next
    case (Inr firstImageChunks)
    show ?thesis
    proof (cases "find (\<lambda>chunk. type chunk = str ''IHDR'') firstImageChunks")
      case None
      with Cons Inr show ?thesis by (simp add: createAPNG_chunks_def)
    next
      case (Some ihdrChunk)
      show ?thesis
      proof (cases "8 \<le> length (data ihdrChunk)")
        case True
        with Cons Inr Some createAPNG_chunks_Cons[OF Inr Some True, of rest delay]
        show ?thesis by simp
      next
        case False
        with Cons Inr Some show ?thesis
          by (simp add: createAPNG_chunks_def getUint32_def)
      qed
    qed
  qed
qed

lemma createAPNG_cases:
  "createAPNG images delay =
     (case createAPNG_chunks images delay of Inl e \<Rightarrow> Inl e | Inr chunks \<Rightarrow> Inr (concat chunks))"
  by (simp add: createAPNG_def concatenateUint8Arrays_eq split: sum.splits)

section \<open>The layout of a serialized chunk\<close>

lemma unat_crc_mod: "unat (w :: 32 word) mod 4294967296 = unat w"
  using unsigned_less[of w, where 'a = nat] by simp

lemma createChunk_length: "length (createChunk ty dat) = 8 + length (TextEncoder_encode ty) + length dat"
  by (simp add: createChunk_eq)

lemma createChunk_crc_field:
  "u8_slice (createChunk ty dat) (4 + length (TextEncoder_encode ty) + length dat)
     (8 + length (TextEncoder_encode ty) + length dat) =
   u32_be (unat (crc32 (TextEncoder_encode ty @ dat)))"
  using slice_mid_short[of "u32_be (length dat) @ TextEncoder_encode ty @ dat"
      "4 + length (TextEncoder_encode ty) + length dat"
      "u32_be (unat (crc32 (TextEncoder_encode ty @ dat)))"
      "8 + length (TextEncoder_encode ty) + length dat"]
  by (simp add: createChunk_eq)

lemma createChunk_covered:
  "u8_slice (createChunk ty dat) 4 (4 + length (TextEncoder_encode ty) + length dat) =
   TextEncoder_encode ty @ dat"
  using slice_mid[of "u32_be (length dat)" 4 "TextEncoder_encode ty @ dat"
      "4 + length (TextEncoder_encode ty) + length dat" "u32_be (unat (crc32 (TextEncoder_encode ty @ dat)))"]
  by (simp add: createChunk_eq)

lemma createChunk_length_field:
  "u8_slice (createChunk ty dat) 0 4 = u32_be (length dat)"
  using slice_mid[of "[]" 0 "u32_be (length dat)" 4]
  by (simp add: createChunk_eq)

lemma createChunk_tag:
  "length (TextEncoder_encode ty) = 4 \<Longrightarrow> u8_slice (createChunk ty dat) 4 8 = TextEncoder_encode ty"
  using slice_mid[of "u32_be (length dat)" 4 "TextEncoder_encode ty" 8]
  by (simp add: createChunk_eq)

lemma checksum_valid_createChunk: "checksum_valid (createChunk ty dat)"
proof -
  have l: "length (createChunk ty dat) - 4 = 4 + length (TextEncoder_encode ty) + length dat"
    by (simp add: createChunk_length)
  have l4: "4 + length (TextEncoder_encode ty) + length dat + 4 = 8 + length (TextEncoder_encode ty) + length dat"
    by simp
  show ?thesis
    unfolding checksum_valid_def l getUint32_def l4 createChunk_crc_field createChunk_covered
    by (simp add: createChunk_length unat_crc_mod)
qed

lemma checksum_valid_fdat: "c \<in> set (createFdatChunks idats s) \<Longrightarrow> checksum_valid c"
  by (auto simp: createFdatChunks_def checksum_valid_createChunk)

lemma checksum_valid_frames: "c \<in> set (frame_chunks idss w h d i s) \<Longrightarrow> checksum_valid c"
  by (induction idss arbitrary: i s)
     (auto simp: createFctlChunk_def checksum_valid_createChunk checksum_valid_fdat split: if_splits)

lemma createAPNG_chunks_shape:
  assumes "createAPNG_chunks images delay = Inr chunks"
  shows "\<exists>(pre :: PNGChunk list) w h. chunks =
        PNG_SIGNATURE # map (\<lambda>chunk. createChunk (type chunk) (data chunk)) pre @
        createActlChunk (length images) # frame_chunks (map idats_of images) w h delay 0 0 @
        [createChunk (str ''IEND'') []]"
proof (cases images)
  case Nil
  with assms show ?thesis by (simp add: createAPNG_chunks_cases)
next
  case (Cons firstImage rest)
  show ?thesis
  proof (cases "extractAllChunks firstImage")
    case (Inl e)
    with assms Cons show ?thesis by (simp add: createAPNG_chunks_cases)
  next
    case (Inr firstImageChunks)
    show ?thesis
    proof (cases "find (\<lambda>chunk. type chunk = str ''IHDR'') firstImageChunks")
      case None
      with assms Cons Inr show ?thesis by (simp add: createAPNG_chunks_cases)
    next
      case (Some ihdrChunk)
      with assms Cons Inr have "chunks =
        PNG_SIGNATURE # map (\<lambda>chunk. createChunk (type chunk) (data chunk))
           (takeWhile (\<lambda>chunk. type chunk \<noteq> str ''IDAT'') firstImageChunks) @
        createActlChunk (length images) #
        frame_chunks (map idats_of images) (be_val (u8_slice (data ihdrChunk) 0 4))
          (be_val (u8_slice (data ihdrChunk) 4 8)) delay 0 0 @
        [createChunk (str ''IEND'') []]"
        by (simp add: createAPNG_chunks_cases del: frame_chunks.simps split: if_splits)
      then show ?thesis by blast
    qed
  qed
qed

lemma checksum_valid_emitted:
  assumes "createAPNG_chunks images delay = Inr chunks"
  shows "list_all checksum_valid (tl chunks)"
proof -
  from createAPNG_chunks_shape[OF assms] obtain pre :: "PNGChunk list" and w h where
    "chunks = PNG_SIGNATURE # map (\<lambda>chunk. createChunk (type chunk) (data chunk)) pre @
        createActlChunk (length images) # frame_chunks (map idats_of images) w h delay 0 0 @
        [createChunk (str ''IEND'') []]"
    by blast
  then show ?thesis
    by (auto simp: list_all_iff createActlChunk_eq checksum_valid_createChunk checksum_valid_frames)
qed

lemma createChunk_fields:
  assumes "length (TextEncoder_encode ty) = 4" and "length dat < 2 ^ 32"
  shows "length (createChunk ty dat) = length dat + 12"
    and "getUint32 (createChunk ty dat) 0 = Inr (length dat)"
    and "u8_slice (createChunk ty dat) 4 8 = TextEncoder_encode ty"
    and "u8_slice (createChunk ty dat) 8 (8 + length dat) = dat"
    and "getUint32 (createChunk ty dat) (8 + length dat) = Inr (unat (crc32 (TextEncoder_encode ty @ dat)))"
proof -
  show "length (createChunk ty dat) = length dat + 12"
    using assms by (simp add: createChunk_length)
  show "getUint32 (createChunk ty dat) 0 = Inr (length dat)"
    using assms by (simp add: getUint32_def createChunk_length_field createChunk_length)
  show "u8_slice (createChunk ty dat) 4 8 = TextEncoder_encode ty"
    using assms by (simp add: createChunk_tag)
  show "u8_slice (createChunk ty dat) 8 (8 + length dat) = dat"
    using assms by (simp add: createChunk_payload)
  show "getUint32 (createChunk ty dat) (8 + length dat) = Inr (unat (crc32 (TextEncoder_encode ty @ dat)))"
    using assms createChunk_crc_field[of ty dat]
    by (simp add: getUint32_def createChunk_length unat_crc_mod add.commute)
qed

section \<open>The parser on truncated streams\<close>




lemma createAPNG_TypeError_iff: "createAPNG images delay = Inl TypeError \<longleftrightarrow> images = []"
  by (auto simp: createAPNG_cases createAPNG_chunks_cases
      split: list.splits sum.splits option.splits if_splits)

lemma createAPNG_Error_iff:
  "createAPNG images delay = Inl (Error ''IHDR chunk not found in the first image'') \<longleftrightarrow>
     (\<exists>firstImage rest firstImageChunks.
        images = firstImage # rest \<and> extractAllChunks firstImage = Inr firstImageChunks \<and>
        \<not> list_ex (\<lambda>chunk. type chunk = str ''IHDR'') firstImageChunks)"
proof -
  have f: "find P xs = None \<longleftrightarrow> \<not> list_ex P xs" for P and xs :: "PNGChunk list"
    by (auto simp: find_None_iff list_ex_iff)
  show ?thesis
    by (auto simp: createAPNG_cases createAPNG_chunks_cases f[symmetric]
      split: list.splits sum.splits option.splits if_splits)
qed

lemma convertToAPNG_Inl: "createAPNG images delay = Inl e \<Longrightarrow> convertToAPNG images delay = None"
  by (simp add: convertToAPNG_def)

section \<open>The example inputs\<close>

lemma parsed_examples:
  "parsed ihdr_1x2 = \<lparr>type = str ''IHDR'', data = [0, 0, 0, 1, 0, 0, 0, 2, 8, 6, 0, 0, 0]\<rparr>"
  "parsed idat_79 = \<lparr>type = str ''IDAT'', data = [7, 9]\<rparr>"
  "parsed iend_0 = \<lparr>type = str ''IEND'', data = []\<rparr>"
  by (simp_all add: parsed_def ihdr_1x2_def idat_79_def iend_0_def TextDecoder_decode_ascii ascii_def
      tag_of_simps str_simps)

lemma framed_examples: "framed ihdr_1x2" "framed idat_79" "framed iend_0"
  by (simp_all add: framed_def ihdr_1x2_def idat_79_def iend_0_def tag_of_simps)

lemma decode_tag_examples:
  "TextDecoder_decode (tag ihdr_1x2) = str ''IHDR''"
  "TextDecoder_decode (tag idat_79) = str ''IDAT''"
  "TextDecoder_decode (tag iend_0) = str ''IEND''"
  by (simp_all add: ihdr_1x2_def idat_79_def iend_0_def TextDecoder_decode_ascii ascii_def
      tag_of_simps str_simps)

lemma parse_still_1x2:
  "extractAllChunks (png_of still_1x2) =
     Inr [\<lparr>type = str ''IHDR'', data = [0, 0, 0, 1, 0, 0, 0, 2, 8, 6, 0, 0, 0]\<rparr>,
          \<lparr>type = str ''IDAT'', data = [7, 9]\<rparr>, \<lparr>type = str ''IEND'', data = []\<rparr>]"
  by (simp add: extractAllChunks_png_of still_1x2_def framed_examples decode_tag_examples
      parsed_examples str_simps)

lemma parse_headless:
  "extractAllChunks (png_of [idat_79, iend_0]) =
     Inr [\<lparr>type = str ''IDAT'', data = [7, 9]\<rparr>, \<lparr>type = str ''IEND'', data = []\<rparr>]"
  by (simp add: extractAllChunks_png_of framed_examples decode_tag_examples
      parsed_examples str_simps)



lemma be_val_examples:
  "be_val (u8_slice [0, 0, 0, 1, 0, 0, 0, 2, 8, 6, 0, 0, 0] 0 4) = 1"
  "be_val (u8_slice [0, 0, 0, 1, 0, 0, 0, 2, 8, 6, 0, 0, 0] 4 8) = 2"
  by (simp_all add: be_val_def u8_slice_def)

lemma two_stills_createAPNG_chunks: "createAPNG_chunks two_stills 100 = Inr two_stills_chunks"
  by (simp add: createAPNG_chunks_cases two_stills_def two_stills_chunks_def two_stills_frames_def
      parses_def idats_of_def parse_still_1x2 str_simps createFdatChunks_def be_val_examples
      numeral_2_eq_2)

lemma headless_createAPNG:
  "createAPNG headless 100 = Inl (Error ''IHDR chunk not found in the first image'')"
  by (simp add: createAPNG_cases createAPNG_chunks_cases headless_def parse_headless str_simps)


section \<open>Sequence numbers\<close>

lemma seq_numbers_Nil [simp]: "seq_numbers [] = []"
  by (simp add: seq_numbers_def)

lemma seq_numbers_append [simp]: "seq_numbers (a @ b) = seq_numbers a @ seq_numbers b"
  by (simp add: seq_numbers_def)

lemma createChunk_first4:
  "length (TextEncoder_encode ty) = 4 \<Longrightarrow> length a = 4 \<Longrightarrow>
   u8_slice (createChunk ty (a @ b)) 8 12 = a"
  using slice_mid[of "u32_be (length (a @ b)) @ TextEncoder_encode ty" 8 a 12
      "b @ u32_be (unat (crc32 (TextEncoder_encode ty @ a @ b)))"]
  by (simp add: createChunk_eq)

lemma seq_numbers_fctl:
  "seq_numbers (createFctlChunk s w h d # cs) = s mod 2 ^ 32 # seq_numbers cs"
proof -
  have t: "u8_slice (createFctlChunk s w h d) 4 8 = tag_of ''fcTL''"
    by (simp add: createFctlChunk_def createChunk_tag encode_str tag_of_simps)
  have v: "u8_slice (createFctlChunk s w h d) 8 12 = u32_be s"
    unfolding createFctlChunk_def fctl_data_eq
    by (rule createChunk_first4) (simp_all add: encode_str tag_of_simps)
  show ?thesis by (simp add: seq_numbers_def t v)
qed

lemma seq_numbers_fdat:
  "seq_numbers (createChunk (str ''fdAT'') (fdat_data idat s) # cs) = s mod 2 ^ 32 # seq_numbers cs"
proof -
  have t: "u8_slice (createChunk (str ''fdAT'') (fdat_data idat s)) 4 8 = tag_of ''fdAT''"
    by (simp add: createChunk_tag encode_str tag_of_simps)
  have v: "u8_slice (createChunk (str ''fdAT'') (fdat_data idat s)) 8 12 = u32_be s"
    unfolding fdat_data_eq
    by (rule createChunk_first4) (simp_all add: encode_str tag_of_simps)
  show ?thesis by (simp add: seq_numbers_def t v)
qed

lemma seq_numbers_other:
  "length (TextEncoder_encode ty) = 4 \<Longrightarrow> TextEncoder_encode ty \<noteq> tag_of ''fcTL'' \<Longrightarrow>
   TextEncoder_encode ty \<noteq> tag_of ''fdAT'' \<Longrightarrow>
   seq_numbers (createChunk ty dat # cs) = seq_numbers cs"
  by (simp add: seq_numbers_def createChunk_tag)

lemma seq_numbers_idats:
  "seq_numbers (map (createChunk (str ''IDAT'')) idats) = []"
  by (induction idats) (simp_all add: seq_numbers_other encode_str tag_of_simps)

lemma createFdatChunks_Cons:
  "createFdatChunks (x # xs) s =
     createChunk (str ''fdAT'') (fdat_data x s) # createFdatChunks xs (Suc s)"
proof -
  have "[0..<Suc (length xs)] = 0 # map Suc [0..<length xs]"
    by (simp add: upt_conv_Cons map_Suc_upt del: upt_Suc)
  then show ?thesis
    by (simp add: createFdatChunks_def zip_map2 split_beta del: upt_Suc)
qed

lemma createFdatChunks_Nil [simp]: "createFdatChunks [] s = []"
  by (simp add: createFdatChunks_def)

lemma seq_numbers_fdats:
  "seq_numbers (createFdatChunks idats s) = map (\<lambda>k. k mod 2 ^ 32) [s..<s + length idats]"
proof (induction idats arbitrary: s)
  case Nil
  then show ?case by simp
next
  case (Cons x xs)
  have "[s..<s + length (x # xs)] = s # [Suc s..<Suc s + length xs]"
    by (simp add: upt_conv_Cons del: upt_Suc)
  with Cons show ?case
    by (simp add: createFdatChunks_Cons seq_numbers_fdat del: upt_Suc)
qed

lemma frame_seq_ge: "s \<le> frame_seq idss i s"
proof (induction idss arbitrary: i s)
  case Nil
  then show ?case by simp
next
  case (Cons a idss)
  have "Suc s \<le> (if i = 0 then Suc s else Suc s + length a)" by simp
  also have "\<dots> \<le> frame_seq idss (Suc i) (if i = 0 then Suc s else Suc s + length a)"
    by (rule Cons.IH)
  finally show ?case by simp
qed

lemma seq_numbers_frames:
  "seq_numbers (frame_chunks idss w h d i s) = map (\<lambda>k. k mod 2 ^ 32) [s..<frame_seq idss i s]"
proof (induction idss arbitrary: i s)
  case Nil
  then show ?case by simp
next
  case (Cons a idss)
  show ?case
  proof (cases "i = 0")
    case True
    have "Suc s \<le> frame_seq idss (Suc 0) (Suc s)" by (rule frame_seq_ge)
    then have "[s..<frame_seq idss (Suc 0) (Suc s)] = s # [Suc s..<frame_seq idss (Suc 0) (Suc s)]"
      by (simp add: upt_conv_Cons)
    with True show ?thesis
      by (simp add: seq_numbers_fctl seq_numbers_idats Cons.IH)
  next
    case False
    define t where "t = frame_seq idss (Suc i) (Suc s + length a)"
    have "Suc s + length a \<le> t" unfolding t_def by (rule frame_seq_ge)
    then obtain m where m: "t = (Suc s + length a) + m" by (auto simp: le_iff_add)
    have "[Suc s..<t] = [Suc s..<Suc s + length a] @ [Suc s + length a..<t]"
      unfolding m by (rule upt_add_eq_append) simp
    moreover have "[s..<t] = s # [Suc s..<t]"
      unfolding m by (rule upt_conv_Cons) simp
    ultimately have "[s..<t] = s # [Suc s..<Suc s + length a] @ [Suc s + length a..<t]"
      by simp
    with False show ?thesis
      by (simp add: seq_numbers_fctl seq_numbers_fdats Cons.IH t_def)
  qed
qed

lemma frame_seq_later:
  "0 < i \<Longrightarrow> frame_seq idss i s = s + length idss + sum_list (map length idss)"
  by (induction idss arbitrary: i s) simp_all

lemma frame_seq_total:
  "frame_seq idss 0 0 = length idss + sum_list (map length (tl idss))"
  by (cases idss) (simp_all add: frame_seq_later)

lemma mod_upt: "n \<le> 2 ^ 32 \<Longrightarrow> map (\<lambda>k. k mod 2 ^ 32) [0..<n] = [0..<n]" for n :: nat
  by (rule map_idI) simp

lemma sum_idat_count:
  "sum_list (map length (tl (map idats_of images))) = sum_list (map idat_count (tl images))"
  by (simp add: map_tl[symmetric] idat_count_idats_of[abs_def] comp_def)

lemma createAPNG_chunks_parts:
  assumes "createAPNG_chunks images delay = Inr chunks"
  shows "\<exists>w h. chunks =
           PNG_SIGNATURE #
           map (\<lambda>chunk. createChunk (type chunk) (data chunk)) (copied_chunks (hd images)) @
           createActlChunk (length images) # frame_chunks (map idats_of images) w h delay 0 0 @
           [createChunk (str ''IEND'') []]"
proof (cases images)
  case Nil
  with assms show ?thesis by (simp add: createAPNG_chunks_cases)
next
  case (Cons firstImage rest)
  show ?thesis
  proof (cases "extractAllChunks firstImage")
    case (Inl e)
    with assms Cons show ?thesis by (simp add: createAPNG_chunks_cases)
  next
    case (Inr firstImageChunks)
    show ?thesis
    proof (cases "find (\<lambda>chunk. type chunk = str ''IHDR'') firstImageChunks")
      case None
      with assms Cons Inr show ?thesis by (simp add: createAPNG_chunks_cases)
    next
      case (Some ihdrChunk)
      with assms Cons Inr have "chunks =
        PNG_SIGNATURE # map (\<lambda>chunk. createChunk (type chunk) (data chunk))
           (takeWhile (\<lambda>chunk. type chunk \<noteq> str ''IDAT'') firstImageChunks) @
        createActlChunk (length images) #
        frame_chunks (map idats_of images) (be_val (u8_slice (data ihdrChunk) 0 4))
          (be_val (u8_slice (data ihdrChunk) 4 8)) delay 0 0 @
        [createChunk (str ''IEND'') []]"
        by (simp add: createAPNG_chunks_cases del: frame_chunks.simps split: if_splits)
      moreover have "copied_chunks (hd images) =
          takeWhile (\<lambda>chunk. type chunk \<noteq> str ''IDAT'') firstImageChunks"
        using Cons Inr by (simp add: copied_chunks_def)
      ultimately show ?thesis by (simp del: frame_chunks.simps) blast
    qed
  qed
qed

lemma seq_numbers_signature: "seq_numbers (PNG_SIGNATURE # cs) = seq_numbers cs"
  by (simp add: seq_numbers_def PNG_SIGNATURE_def u8_slice_def tag_of_simps)

lemma seq_numbers_all:
  assumes "createAPNG_chunks images delay = Inr chunks"
  shows "seq_numbers chunks =
           seq_numbers (map (\<lambda>chunk. createChunk (type chunk) (data chunk))
                          (copied_chunks (hd images))) @
           map (\<lambda>k. k mod 2 ^ 32) [0..<length images + sum_list (map idat_count (tl images))]"
proof -
  from createAPNG_chunks_parts[OF assms] obtain w h where
    d: "chunks = PNG_SIGNATURE #
           map (\<lambda>chunk. createChunk (type chunk) (data chunk)) (copied_chunks (hd images)) @
           createActlChunk (length images) # frame_chunks (map idats_of images) w h delay 0 0 @
           [createChunk (str ''IEND'') []]"
    by blast
  have a: "seq_numbers (createActlChunk n # cs) = seq_numbers cs" for n cs
    by (simp add: createActlChunk_eq seq_numbers_other encode_str tag_of_simps)
  have e: "seq_numbers [createChunk (str ''IEND'') []] = []"
    by (simp add: seq_numbers_other encode_str tag_of_simps)
  have c: "seq_numbers (x # xs) = seq_numbers [x] @ seq_numbers xs" for x xs
    using seq_numbers_append[of "[x]" xs] by simp
  show ?thesis
    unfolding d seq_numbers_signature seq_numbers_append c[of "createActlChunk (length images)"] a
      e seq_numbers_frames frame_seq_total
    by (simp add: sum_idat_count)
qed

lemma two_stills_count: "length two_stills + sum_list (map idat_count (tl two_stills)) = 3"
  by (simp add: two_stills_def idat_count_def parse_still_1x2 str_simps)

section \<open>The assembled stream\<close>

lemma createChunk_frame: "createChunk ty dat = frame (wire ty dat)"
  by (simp add: createChunk_eq frame_def wire_def)

lemma createFdatChunks_wires: "createFdatChunks idats s = map frame (fdat_wires idats s)"
  by (simp add: createFdatChunks_def fdat_wires_def createChunk_frame split_beta)

lemma frame_chunks_wires: "frame_chunks idss w h d i s = map frame (frame_wires idss w h d i s)"
  by (induction idss arbitrary: i s)
     (simp_all add: createFctlChunk_def createChunk_frame createFdatChunks_wires)

lemma createAPNG_Inr_ends:
  assumes "createAPNG images delay = Inr out"
  shows "take 8 out = PNG_SIGNATURE \<and>
         drop (length out - 12) out = [0, 0, 0, 0, 73, 69, 78, 68, 174, 66, 96, 130]"
proof -
  from assms obtain chunks where c: "createAPNG_chunks images delay = Inr chunks"
    and out: "out = concat chunks"
    by (auto simp: createAPNG_cases split: sum.splits)
  from createAPNG_chunks_shape[OF c] obtain pre :: "PNGChunk list" and w h where
    "chunks = PNG_SIGNATURE # map (\<lambda>chunk. createChunk (type chunk) (data chunk)) pre @
        createActlChunk (length images) # frame_chunks (map idats_of images) w h delay 0 0 @
        [createChunk (str ''IEND'') []]"
    by blast
  then obtain mid where o: "out = PNG_SIGNATURE @ mid @ createChunk (str ''IEND'') []"
    unfolding out by simp
  have e: "createChunk (str ''IEND'') [] = [0, 0, 0, 0, 73, 69, 78, 68, 174, 66, 96, 130]"
  proof -
    have "unat (crc32 [73, 69, 78, 68]) = 2923585666"
      by (simp add: crc32_IEND)
    then show ?thesis
      by (simp add: createChunk_eq encode_str tag_of_simps u32_be_def)
  qed
  show ?thesis unfolding o e by simp
qed

section \<open>Still images\<close>

lemma ascii_tags:
  "ascii (tag_of ''IHDR'')" "ascii (tag_of ''IDAT'')" "ascii (tag_of ''IEND'')"
  "ascii (tag_of ''acTL'')" "ascii (tag_of ''fcTL'')" "ascii (tag_of ''fdAT'')"
  by (simp_all add: ascii_def tag_of_simps)

lemma decode_tag_of:
  "TextDecoder_decode (tag_of ''IHDR'') = str ''IHDR''"
  "TextDecoder_decode (tag_of ''IDAT'') = str ''IDAT''"
  "TextDecoder_decode (tag_of ''IEND'') = str ''IEND''"
  "TextDecoder_decode (tag_of ''acTL'') = str ''acTL''"
  "TextDecoder_decode (tag_of ''fcTL'') = str ''fcTL''"
  "TextDecoder_decode (tag_of ''fdAT'') = str ''fdAT''"
  by (simp_all add: TextDecoder_decode_ascii ascii_tags) (simp_all add: tag_of_simps str_simps)

lemma decode_inj:
  assumes "ascii a" "ascii b" "TextDecoder_decode a = TextDecoder_decode b"
  shows "a = b"
proof -
  have "inj (unat :: byte \<Rightarrow> nat)" by (rule injI) (simp add: word_unat_eq_iff)
  with assms show ?thesis by (simp add: TextDecoder_decode_ascii)
qed

lemma type_parsed_iff:
  assumes a: "ascii (tag c)"
  shows "type (parsed c) = str ''IHDR'' \<longleftrightarrow> tag c = tag_of ''IHDR''"
    and "type (parsed c) = str ''IDAT'' \<longleftrightarrow> tag c = tag_of ''IDAT''"
    and "type (parsed c) = str ''IEND'' \<longleftrightarrow> tag c = tag_of ''IEND''"
    and "type (parsed c) = str ''acTL'' \<longleftrightarrow> tag c = tag_of ''acTL''"
    and "type (parsed c) = str ''fcTL'' \<longleftrightarrow> tag c = tag_of ''fcTL''"
    and "type (parsed c) = str ''fdAT'' \<longleftrightarrow> tag c = tag_of ''fdAT''"
proof -
  have t: "type (parsed c) = TextDecoder_decode (tag c)" by (simp add: parsed_def)
  show "type (parsed c) = str ''IHDR'' \<longleftrightarrow> tag c = tag_of ''IHDR''"
    unfolding t decode_tag_of(1)[symmetric] using decode_inj[OF a ascii_tags(1)] by auto
  show "type (parsed c) = str ''IDAT'' \<longleftrightarrow> tag c = tag_of ''IDAT''"
    unfolding t decode_tag_of(2)[symmetric] using decode_inj[OF a ascii_tags(2)] by auto
  show "type (parsed c) = str ''IEND'' \<longleftrightarrow> tag c = tag_of ''IEND''"
    unfolding t decode_tag_of(3)[symmetric] using decode_inj[OF a ascii_tags(3)] by auto
  show "type (parsed c) = str ''acTL'' \<longleftrightarrow> tag c = tag_of ''acTL''"
    unfolding t decode_tag_of(4)[symmetric] using decode_inj[OF a ascii_tags(4)] by auto
  show "type (parsed c) = str ''fcTL'' \<longleftrightarrow> tag c = tag_of ''fcTL''"
    unfolding t decode_tag_of(5)[symmetric] using decode_inj[OF a ascii_tags(5)] by auto
  show "type (parsed c) = str ''fdAT'' \<longleftrightarrow> tag c = tag_of ''fdAT''"
    unfolding t decode_tag_of(6)[symmetric] using decode_inj[OF a ascii_tags(6)] by auto
qed

lemma chunk_ok_framed: "chunk_ok c \<Longrightarrow> framed c"
  by (simp add: chunk_ok_def framed_def)

lemma parse_chunk_ok:
  "list_all chunk_ok cs \<Longrightarrow> extractAllChunks (png_of cs) = Inr (map parsed (through_iend cs))"
  by (rule extractAllChunks_png_of) (auto simp: list_all_iff chunk_ok_framed)

lemma set_through_iend: "set (through_iend cs) \<subseteq> set cs"
  by (induction cs) auto

lemma copied_before_idat:
  assumes "list_all chunk_ok cs"
    and "list_ex (\<lambda>c. tag c = tag_of ''IDAT'') (takeWhile (\<lambda>c. tag c \<noteq> tag_of ''IEND'') cs)"
  shows "takeWhile (\<lambda>chunk. type chunk \<noteq> str ''IDAT'') (map parsed (through_iend cs)) =
           map parsed (takeWhile (\<lambda>c. tag c \<noteq> tag_of ''IDAT'') cs) \<and>
         list_all (\<lambda>c. tag c \<noteq> tag_of ''IEND'') (takeWhile (\<lambda>c. tag c \<noteq> tag_of ''IDAT'') cs)"
  using assms
proof (induction cs)
  case Nil
  then show ?case by simp
next
  case (Cons c cs)
  from Cons.prems(1) have "chunk_ok c" and oks: "list_all chunk_ok cs" by simp_all
  then have ok: "ascii (tag c)" by (simp add: chunk_ok_def)
  have d: "TextDecoder_decode (tag c) = type (parsed c)" by (simp add: parsed_def)
  show ?case
  proof (cases "tag c = tag_of ''IEND''")
    case True
    with Cons.prems show ?thesis by simp
  next
    case notend: False
    show ?thesis
    proof (cases "tag c = tag_of ''IDAT''")
      case True
      with notend show ?thesis
        by (simp add: d type_parsed_iff[OF ok])
    next
      case False
      with notend Cons.prems have "list_ex (\<lambda>c. tag c = tag_of ''IDAT'') (takeWhile (\<lambda>c. tag c \<noteq> tag_of ''IEND'') cs)"
        by simp
      from Cons.IH[OF oks this] False notend show ?thesis
        by (simp add: d type_parsed_iff[OF ok])
    qed
  qed
qed

lemma through_iend_snoc:
  "list_all (\<lambda>c. TextDecoder_decode (tag c) \<noteq> str ''IEND'') xs \<Longrightarrow>
   through_iend (xs @ [y]) = xs @ [y]"
  by (induction xs) auto

lemma idats_of_bound:
  assumes "list_all chunk_ok cs" and "x \<in> set (idats_of (png_of cs))"
  shows "length x < 2 ^ 31"
proof -
  from assms(2) obtain c where "c \<in> set (through_iend cs)" and x: "x = payload c"
    by (auto simp: idats_of_def parse_chunk_ok[OF assms(1)] parsed_def)
  with set_through_iend[of cs] have "c \<in> set cs" by blast
  with assms(1) have "chunk_ok c" by (simp add: list_all_iff)
  then show ?thesis by (simp add: chunk_ok_def x)
qed

lemma still_png_ok: "still_png cs \<Longrightarrow> png_ok cs"
  by (simp add: still_png_def png_ok_def)

lemma still_no_control: "still_png cs \<Longrightarrow> no_control_before_idat cs"
proof -
  assume "still_png cs"
  then have "list_all (\<lambda>c. tag c \<noteq> tag_of ''acTL'' \<and> tag c \<noteq> tag_of ''fcTL'') cs"
    by (simp add: still_png_def list_all_iff)
  then show ?thesis
    unfolding no_control_before_idat_def list_all_iff by (auto dest: set_takeWhileD)
qed

lemma png_ok_Cons:
  assumes "png_ok cs"
  obtains ih tl where "cs = ih # tl" "tag ih = tag_of ''IHDR''" "8 \<le> length (payload ih)"
    "list_all chunk_ok cs"
  using assms by (auto simp: png_ok_def split: list.splits)

lemma parses_png_of: "list_all chunk_ok cs \<Longrightarrow> parses (png_of cs)"
  by (simp add: parses_def parse_chunk_ok)

lemma png_of_wires: "concat (PNG_SIGNATURE # map frame ws) = png_of ws"
  by (simp add: png_of_def)

lemma png_ok_createAPNG:
  assumes "css \<noteq> []" and "list_all png_ok css"
  shows "createAPNG (map png_of css) d = Inr (png_of (assembled_wires css d))"
proof -
  from assms obtain cs0 rest where css: "css = cs0 # rest" by (cases css) auto
  with assms have s0: "png_ok cs0" and sr: "list_all png_ok rest" by simp_all
  from s0 obtain ih tl where cs0: "cs0 = ih # tl" and ih: "tag ih = tag_of ''IHDR''"
    "8 \<le> length (payload ih)" and oks: "list_all chunk_ok cs0"
    by (rule png_ok_Cons)
  from s0 have ex: "list_ex (\<lambda>c. tag c = tag_of ''IDAT'') (takeWhile (\<lambda>c. tag c \<noteq> tag_of ''IEND'') cs0)"
    by (simp add: png_ok_def)
  have p0: "extractAllChunks (png_of cs0) = Inr (map parsed (through_iend cs0))"
    by (rule parse_chunk_ok[OF oks])
  have di: "TextDecoder_decode (tag ih) = str ''IHDR''"
    by (simp add: ih decode_tag_of)
  have ti: "through_iend cs0 = ih # through_iend tl"
    by (simp add: cs0 di str_simps)
  have f: "find (\<lambda>chunk. type chunk = str ''IHDR'') (map parsed (through_iend cs0)) = Some (parsed ih)"
    by (simp add: ti parsed_def di)
  have pr: "list_all parses (map png_of rest)"
    using sr by (auto simp: list_all_iff png_ok_def intro!: parses_png_of)
  have cp: "takeWhile (\<lambda>chunk. type chunk \<noteq> str ''IDAT'') (map parsed (through_iend cs0)) =
           map parsed (takeWhile (\<lambda>c. tag c \<noteq> tag_of ''IDAT'') cs0)"
    using copied_before_idat[OF oks ex] by simp
  have dp: "data (parsed ih) = payload ih" by (simp add: parsed_def)
  have hd0: "hd cs0 = ih" by (simp add: cs0)
  have len: "\<not> length (payload ih) < 8" using ih(2) by simp
  have "createAPNG_chunks (map png_of css) d =
      Inr (PNG_SIGNATURE # map frame (assembled_wires css d))"
    unfolding createAPNG_chunks_cases css
    by (simp add: p0 f dp len pr cp assembled_wires_def frame_chunks_wires createChunk_frame
        createActlChunk_eq comp_def parsed_def hd0 del: frame_wires.simps)
  then show ?thesis
    by (simp add: createAPNG_cases png_of_wires del: concat.simps)
qed

lemma still_createAPNG:
  assumes "css \<noteq> []" and "list_all still_png css"
  shows "createAPNG (map png_of css) d = Inr (png_of (assembled_wires css d))"
proof -
  from assms(2) have "list_all png_ok css" by (simp add: list_all_iff still_png_ok)
  with assms(1) show ?thesis by (rule png_ok_createAPNG)
qed

lemma wire_sel [simp]:
  "tag (wire ty dat) = TextEncoder_encode ty" "payload (wire ty dat) = dat"
  "length (checksum (wire ty dat)) = 4"
  by (simp_all add: wire_def)

lemma rewire_tag: "ascii (tag c) \<Longrightarrow> TextEncoder_encode (type (parsed c)) = tag c"
  by (simp add: parsed_def TextDecoder_decode_ascii TextEncoder_encode_ascii)

lemma fdat_wires_mem:
  assumes "c \<in> set (fdat_wires idats s)"
  shows "tag c = tag_of ''fdAT'' \<and> (\<exists>x\<in>set idats. length (payload c) = length x + 4)"
proof -
  from assms obtain x k where "(x, k) \<in> set (zip idats [0..<length idats])"
    and c: "c = wire (str ''fdAT'') (fdat_data x (s + k))"
    by (auto simp: fdat_wires_def)
  then have "x \<in> set idats" by (auto dest: set_zip_leftD)
  then show ?thesis by (auto simp: c encode_str fdat_data_eq)
qed

lemma frame_wires_mem:
  "c \<in> set (frame_wires idss w h d i s) \<Longrightarrow>
   (tag c = tag_of ''fcTL'' \<and> (\<exists>s'. payload c = fctl_data s' w h d)) \<or>
   (tag c = tag_of ''IDAT'' \<and> (\<exists>idats\<in>set idss. payload c \<in> set idats)) \<or>
   (tag c = tag_of ''fdAT'' \<and> (\<exists>idats\<in>set idss. \<exists>x\<in>set idats. length (payload c) = length x + 4))"
proof (induction idss arbitrary: i s)
  case Nil
  then show ?case by simp
next
  case (Cons a idss)
  from Cons.prems consider
    (fctl) "c = wire (str ''fcTL'') (fctl_data s w h d)"
    | (idat) "i = 0" "c \<in> set (map (wire (str ''IDAT'')) a)"
    | (fdat) "c \<in> set (fdat_wires a (Suc s))"
    | (rest) i' s' where "c \<in> set (frame_wires idss w h d i' s')"
    by (auto split: if_splits)
  then show ?case
  proof cases
    case fctl
    then show ?thesis by (auto simp: encode_str)
  next
    case idat
    then show ?thesis by (auto simp: encode_str)
  next
    case fdat
    from fdat_wires_mem[OF this] show ?thesis by auto
  next
    case rest
    from Cons.IH[OF this] show ?thesis by auto
  qed
qed

lemma filter_fctl_idat_wires:
  "filter (\<lambda>c. tag c = tag_of ''fcTL'') (map (wire (str ''IDAT'')) idats) = []"
  by (auto simp: filter_empty_conv encode_str tag_of_simps)

lemma filter_fctl_fdat_wires:
  "filter (\<lambda>c. tag c = tag_of ''fcTL'') (fdat_wires idats s) = []"
  by (auto simp: filter_empty_conv tag_of_simps dest!: fdat_wires_mem)

lemma frame_wires_fctl_count:
  "length (filter (\<lambda>c. tag c = tag_of ''fcTL'') (frame_wires idss w h d i s)) = length idss"
  by (induction idss arbitrary: i s)
     (simp_all add: filter_fctl_idat_wires filter_fctl_fdat_wires encode_str)

lemma fctl_fields:
  "getUint16 (fctl_data s w h d) 20 = Inr (nat (d mod 2 ^ 16))"
  "getUint16 (fctl_data s w h d) 22 = Inr 1000"
proof -
  have "u8_slice (fctl_data s w h d) 22 24 = u16_be 1000"
    using slice_mid[of "u32_be s @ u32_be w @ u32_be h @ u32_be 0 @ u32_be 0 @ u16_be (nat (d mod 2 ^ 16))"
        22 "u16_be 1000" 24 "[0, 0]"]
    by (simp add: fctl_data_eq)
  then show "getUint16 (fctl_data s w h d) 22 = Inr 1000"
    by (simp add: getUint16_def be_val_u16_be)
  have "nat (d mod 2 ^ 16) < 2 ^ 16" by simp
  then show "getUint16 (fctl_data s w h d) 20 = Inr (nat (d mod 2 ^ 16))"
    by (simp add: getUint16_def fctl_delay_field be_val_u16_be)
qed

lemma find_parsed:
  assumes "list_all (\<lambda>c. ascii (tag c)) ws"
  shows "find (\<lambda>chunk. type chunk = str ''IHDR'') (map parsed ws) =
           map_option parsed (find (\<lambda>c. tag c = tag_of ''IHDR'') ws)"
    and "find (\<lambda>chunk. type chunk = str ''acTL'') (map parsed ws) =
           map_option parsed (find (\<lambda>c. tag c = tag_of ''acTL'') ws)"
    and "filter (\<lambda>chunk. type chunk = str ''fcTL'') (map parsed ws) =
           map parsed (filter (\<lambda>c. tag c = tag_of ''fcTL'') ws)"
  using assms
  by (induction ws) (simp_all add: type_parsed_iff)

lemma iend_chunk: "createChunk (str ''IEND'') [] = [0, 0, 0, 0, 73, 69, 78, 68, 174, 66, 96, 130]"
proof -
  have "unat (crc32 [73, 69, 78, 68]) = 2923585666"
    by (simp add: crc32_IEND)
  then show ?thesis
    by (simp add: createChunk_eq encode_str tag_of_simps u32_be_def)
qed

lemma frame_wires_checksum: "c \<in> set (frame_wires idss w h d i s) \<Longrightarrow> length (checksum c) = 4"
  by (induction idss arbitrary: i s) (auto simp: fdat_wires_def split: if_splits)

lemma find_append_None: "find P xs = None \<Longrightarrow> find P (xs @ ys) = find P ys"
  by (induction xs) (auto split: if_splits)

lemma tag_of_distinct:
  "tag_of ''acTL'' \<noteq> tag_of ''fcTL''" "tag_of ''IEND'' \<noteq> tag_of ''fcTL''"
  "tag_of ''acTL'' \<noteq> tag_of ''IHDR''" "tag_of ''IEND'' \<noteq> tag_of ''acTL''"
  by (simp_all add: tag_of_simps)

lemma png_ok_idats_bound:
  assumes "list_all png_ok css" "idats \<in> set (map (\<lambda>cs. idats_of (png_of cs)) css)" "x \<in> set idats"
  shows "length x < 2 ^ 31"
proof -
  from assms obtain cs where cs: "cs \<in> set css" and x: "x \<in> set (idats_of (png_of cs))" by auto
  from assms(1) cs have "png_ok cs" by (simp add: list_all_iff)
  then have "list_all chunk_ok cs" by (simp add: png_ok_def)
  then show ?thesis using x by (rule idats_of_bound)
qed

lemma assembled_wires_facts:
  assumes "css \<noteq> []" and "list_all png_ok css"
  shows "list_all framed (assembled_wires css d)"
    and "list_all (\<lambda>c. ascii (tag c)) (assembled_wires css d)"
    and "through_iend (assembled_wires css d) = assembled_wires css d"
    and "find (\<lambda>c. tag c = tag_of ''IHDR'') (assembled_wires css d) =
           Some (wire (type (parsed (hd (hd css)))) (payload (hd (hd css))))"
    and "no_control_before_idat (hd css) \<Longrightarrow>
         find (\<lambda>c. tag c = tag_of ''acTL'') (assembled_wires css d) =
           Some (wire (str ''acTL'') (u32_be (length css) @ u32_be 0))"
    and "no_control_before_idat (hd css) \<Longrightarrow>
         filter (\<lambda>c. tag c = tag_of ''fcTL'') (assembled_wires css d) =
           filter (\<lambda>c. tag c = tag_of ''fcTL'')
             (frame_wires (map (\<lambda>cs. idats_of (png_of cs)) css)
                (be_val (u8_slice (payload (hd (hd css))) 0 4))
                (be_val (u8_slice (payload (hd (hd css))) 4 8)) d 0 0)"
proof -
  from assms obtain cs0 rest where css: "css = cs0 # rest" by (cases css) auto
  with assms have s0: "png_ok cs0" by simp
  from s0 obtain ih tl where cs0: "cs0 = ih # tl" and ih: "tag ih = tag_of ''IHDR''"
    "8 \<le> length (payload ih)" and oks: "list_all chunk_ok cs0"
    by (rule png_ok_Cons)
  define pre where "pre = takeWhile (\<lambda>c. tag c \<noteq> tag_of ''IDAT'') cs0"
  define fw where "fw = frame_wires (map (\<lambda>cs. idats_of (png_of cs)) css)
                (be_val (u8_slice (payload (hd (hd css))) 0 4))
                (be_val (u8_slice (payload (hd (hd css))) 4 8)) d 0 0"
  define rw where "rw = (\<lambda>c. wire (type (parsed c)) (payload c))"
  have ws: "assembled_wires css d =
      map rw pre @ wire (str ''acTL'') (u32_be (length css) @ u32_be 0) # fw @ [wire (str ''IEND'') []]"
    by (simp add: assembled_wires_def pre_def fw_def rw_def css)
  from s0 have ex: "list_ex (\<lambda>c. tag c = tag_of ''IDAT'') (takeWhile (\<lambda>c. tag c \<noteq> tag_of ''IEND'') cs0)"
    by (simp add: png_ok_def)
  have sub: "set pre \<subseteq> set cs0" unfolding pre_def by (auto dest: set_takeWhileD)
  have pre_ok: "chunk_ok c" if "c \<in> set pre" for c
    using that sub oks by (auto simp: list_all_iff)
  have pre_tag: "tag (rw c) = tag c" if "c \<in> set pre" for c
    using pre_ok[OF that] by (simp add: rw_def rewire_tag chunk_ok_def)
  have pre_not: "tag c \<noteq> tag_of ''IDAT'' \<and> tag c \<noteq> tag_of ''IEND''" if "c \<in> set pre" for c
  proof -
    from that have "tag c \<noteq> tag_of ''IDAT''" unfolding pre_def by (auto dest: set_takeWhileD)
    moreover from copied_before_idat[OF oks ex] that have "tag c \<noteq> tag_of ''IEND''"
      by (auto simp: pre_def list_all_iff)
    ultimately show ?thesis by simp
  qed
  have pre_plain: "tag c \<noteq> tag_of ''acTL'' \<and> tag c \<noteq> tag_of ''fcTL''"
    if "no_control_before_idat (hd css)" "c \<in> set pre" for c
    using that by (simp add: no_control_before_idat_def css pre_def list_all_iff)
  have pre_hd: "pre = ih # takeWhile (\<lambda>c. tag c \<noteq> tag_of ''IDAT'') tl"
    by (simp add: pre_def cs0 ih tag_of_simps)
  have fw_mem: "(tag c = tag_of ''fcTL'' \<and> length (payload c) = 26) \<or>
      (tag c = tag_of ''IDAT'' \<and> length (payload c) < 2 ^ 31) \<or>
      (tag c = tag_of ''fdAT'' \<and> length (payload c) < 2 ^ 31 + 4)" if "c \<in> set fw" for c
    using frame_wires_mem[OF that[unfolded fw_def]] png_ok_idats_bound[OF assms(2)]
    by (elim disjE conjE exE bexE) auto

  show "list_all framed (assembled_wires css d)"
    unfolding ws list_all_iff
  proof
    fix c assume "c \<in> set (map rw pre @ wire (str ''acTL'') (u32_be (length css) @ u32_be 0) # fw @ [wire (str ''IEND'') []])"
    then consider (p) c0 where "c0 \<in> set pre" "c = rw c0"
      | (a) "c = wire (str ''acTL'') (u32_be (length css) @ u32_be 0)"
      | (f) "c \<in> set fw" | (e) "c = wire (str ''IEND'') []"
      by auto
    then show "framed c"
    proof cases
      case p
      with pre_ok[OF p(1)] pre_tag[OF p(1)] show ?thesis
        by (simp add: framed_def chunk_ok_def) (simp add: rw_def)
    next
      case a
      then show ?thesis by (simp add: framed_def encode_str tag_of_simps)
    next
      case f
      from fw_mem[OF f] frame_wires_checksum[OF f[unfolded fw_def]] show ?thesis
        by (auto simp: framed_def tag_of_simps)
    next
      case e
      then show ?thesis by (simp add: framed_def encode_str tag_of_simps)
    qed
  qed
  show "list_all (\<lambda>c. ascii (tag c)) (assembled_wires css d)"
    unfolding ws list_all_iff
  proof
    fix c assume "c \<in> set (map rw pre @ wire (str ''acTL'') (u32_be (length css) @ u32_be 0) # fw @ [wire (str ''IEND'') []])"
    then consider (p) c0 where "c0 \<in> set pre" "c = rw c0"
      | (a) "c = wire (str ''acTL'') (u32_be (length css) @ u32_be 0)"
      | (f) "c \<in> set fw" | (e) "c = wire (str ''IEND'') []"
      by auto
    then show "ascii (tag c)"
    proof cases
      case p
      with pre_ok[OF p(1)] pre_tag[OF p(1)] show ?thesis by (simp add: chunk_ok_def)
    next
      case a
      then show ?thesis by (simp add: encode_str ascii_tags)
    next
      case f
      from fw_mem[OF this] show ?thesis by (auto simp: ascii_tags)
    next
      case e
      then show ?thesis by (simp add: encode_str ascii_tags)
    qed
  qed
  have noend: "list_all (\<lambda>c. TextDecoder_decode (tag c) \<noteq> str ''IEND'')
      (map rw pre @ wire (str ''acTL'') (u32_be (length css) @ u32_be 0) # fw)"
    unfolding list_all_iff
  proof
    fix c assume "c \<in> set (map rw pre @ wire (str ''acTL'') (u32_be (length css) @ u32_be 0) # fw)"
    then consider (p) c0 where "c0 \<in> set pre" "c = rw c0"
      | (a) "c = wire (str ''acTL'') (u32_be (length css) @ u32_be 0)"
      | (f) "c \<in> set fw"
      by auto
    then have "ascii (tag c) \<and> tag c \<noteq> tag_of ''IEND''"
    proof cases
      case p
      with pre_ok[OF p(1)] pre_tag[OF p(1)] pre_not[OF p(1)] show ?thesis by (simp add: chunk_ok_def)
    next
      case a
      then show ?thesis by (simp add: encode_str ascii_tags) (simp add: tag_of_simps)
    next
      case f
      from fw_mem[OF this] show ?thesis by (auto simp: ascii_tags) (simp_all add: tag_of_simps)
    qed
    then show "TextDecoder_decode (tag c) \<noteq> str ''IEND''"
      using type_parsed_iff(3)[of c] by (simp add: parsed_def)
  qed
  show "through_iend (assembled_wires css d) = assembled_wires css d"
    using through_iend_snoc[OF noend, of "wire (str ''IEND'') []"] by (simp add: ws)
  show "find (\<lambda>c. tag c = tag_of ''IHDR'') (assembled_wires css d) =
           Some (wire (type (parsed (hd (hd css)))) (payload (hd (hd css))))"
  proof -
    have hh: "hd (hd css) = ih" by (simp add: css cs0)
    have "ih \<in> set pre" by (simp add: pre_hd)
    from pre_tag[OF this] have "tag (rw ih) = tag_of ''IHDR''" by (simp add: ih)
    then show ?thesis unfolding ws pre_hd hh by (simp add: rw_def)
  qed
  show "find (\<lambda>c. tag c = tag_of ''acTL'') (assembled_wires css d) =
           Some (wire (str ''acTL'') (u32_be (length css) @ u32_be 0))"
    if plain: "no_control_before_idat (hd css)"
  proof -
    have pre_none: "find (\<lambda>c. tag c = tag_of ''acTL'') (map rw pre) = None"
      using pre_tag pre_plain[OF plain] by (auto simp: find_None_iff)
    show ?thesis
      unfolding ws by (simp add: find_append_None[OF pre_none] encode_str)
  qed
  show "filter (\<lambda>c. tag c = tag_of ''fcTL'') (assembled_wires css d) =
           filter (\<lambda>c. tag c = tag_of ''fcTL'')
             (frame_wires (map (\<lambda>cs. idats_of (png_of cs)) css)
                (be_val (u8_slice (payload (hd (hd css))) 0 4))
                (be_val (u8_slice (payload (hd (hd css))) 4 8)) d 0 0)"
    if plain: "no_control_before_idat (hd css)"
  proof -
    have pre_nofctl: "filter (\<lambda>c. tag c = tag_of ''fcTL'') (map rw pre) = []"
      using pre_tag pre_plain[OF plain] by (auto simp: filter_empty_conv)
    show ?thesis
      unfolding ws fw_def[symmetric]
      by (simp add: pre_nofctl encode_str tag_of_distinct)
  qed
qed

lemma png_ok_first_header:
  assumes "png_ok cs0"
  shows "extractAllChunks (png_of cs0) = Inr (map parsed (through_iend cs0))"
    and "find (\<lambda>chunk. type chunk = str ''IHDR'') (map parsed (through_iend cs0)) = Some (parsed (hd cs0))"
    and "8 \<le> length (data (parsed (hd cs0)))"
proof -
  from assms obtain ih tl where cs0: "cs0 = ih # tl" and ih: "tag ih = tag_of ''IHDR''"
    "8 \<le> length (payload ih)" and oks: "list_all chunk_ok cs0"
    by (rule png_ok_Cons)
  show "extractAllChunks (png_of cs0) = Inr (map parsed (through_iend cs0))"
    by (rule parse_chunk_ok[OF oks])
  have di: "TextDecoder_decode (tag ih) = str ''IHDR''"
    by (simp add: ih decode_tag_of)
  have ti: "through_iend cs0 = ih # through_iend tl"
    by (simp add: cs0 di str_simps)
  show "find (\<lambda>chunk. type chunk = str ''IHDR'') (map parsed (through_iend cs0)) = Some (parsed (hd cs0))"
    by (simp add: ti parsed_def di cs0)
  show "8 \<le> length (data (parsed (hd cs0)))"
    using ih by (simp add: cs0 parsed_def)
qed

lemma png_ok_reparse:
  assumes "css \<noteq> []" and "list_all png_ok css"
  shows "extractAllChunks (png_of (assembled_wires css d)) = Inr (map parsed (assembled_wires css d))"
  using extractAllChunks_png_of[OF assembled_wires_facts(1)[OF assms, of d]]
    assembled_wires_facts(3)[OF assms, of d]
  by simp

lemma getUint32_8:
  "8 \<le> length dat \<Longrightarrow> getUint32 dat 0 = Inr (be_val (u8_slice dat 0 4)) \<and>
     getUint32 dat 4 = Inr (be_val (u8_slice dat 4 8))"
  by (simp add: getUint32_def)

lemma still_1x2_ok: "still_png still_1x2"
  by (simp add: still_png_def still_1x2_def chunk_ok_def ihdr_1x2_def idat_79_def iend_0_def
      ascii_def tag_of_simps)

lemma copied_png_ok:
  assumes "png_ok cs0"
  shows "copied_chunks (png_of cs0) = map parsed (takeWhile (\<lambda>c. tag c \<noteq> tag_of ''IDAT'') cs0)"
proof -
  from assms have oks: "list_all chunk_ok cs0"
    and ex: "list_ex (\<lambda>c. tag c = tag_of ''IDAT'') (takeWhile (\<lambda>c. tag c \<noteq> tag_of ''IEND'') cs0)"
    by (simp_all add: png_ok_def)
  show ?thesis
    using copied_before_idat[OF oks ex] by (simp add: copied_chunks_def parse_chunk_ok[OF oks])
qed

lemma seq_numbers_copied:
  assumes "png_ok cs0"
    and "list_all (\<lambda>c. tag c \<noteq> tag_of ''fcTL'' \<and> tag c \<noteq> tag_of ''fdAT'')
           (takeWhile (\<lambda>c. tag c \<noteq> tag_of ''IDAT'') cs0)"
  shows "seq_numbers (map (\<lambda>chunk. createChunk (type chunk) (data chunk))
                        (copied_chunks (png_of cs0))) = []"
proof -
  from assms(1) have oks: "list_all chunk_ok cs0" by (simp add: png_ok_def)
  have "seq_numbers (map (\<lambda>chunk. createChunk (type chunk) (data chunk)) (map parsed pre)) = []"
    if "set pre \<subseteq> set cs0"
      "list_all (\<lambda>c. tag c \<noteq> tag_of ''fcTL'' \<and> tag c \<noteq> tag_of ''fdAT'') pre" for pre
    using that
  proof (induction pre)
    case Nil
    then show ?case by simp
  next
    case (Cons c pre)
    from Cons.prems(1) oks have ok: "chunk_ok c" by (auto simp: list_all_iff)
    then have t: "TextEncoder_encode (type (parsed c)) = tag c"
      by (simp add: rewire_tag chunk_ok_def)
    from ok have l: "length (tag c) = 4" by (simp add: chunk_ok_def)
    from Cons show ?case
      by (simp add: seq_numbers_other t l)
  qed
  from this[of "takeWhile (\<lambda>c. tag c \<noteq> tag_of ''IDAT'') cs0"] assms(2) show ?thesis
    unfolding copied_png_ok[OF assms(1)] by (auto dest: set_takeWhileD)
qed

section \<open>An image that is animated already\<close>

lemma animated_parsed:
  "parsed actl_7 = \<lparr>type = str ''acTL'', data = [0, 0, 0, 7, 0, 0, 0, 0]\<rparr>"
  "parsed fctl_50 = \<lparr>type = str ''fcTL'',
     data = [0, 0, 0, 0, 0, 0, 0, 1, 0, 0, 0, 2, 0, 0, 0, 0, 0, 0, 0, 0, 0, 50, 3, 232, 0, 0]\<rparr>"
  by (simp_all add: parsed_def actl_7_def fctl_50_def decode_tag_of)

lemma animated_tags:
  "TextDecoder_decode (tag actl_7) = str ''acTL''"
  "TextDecoder_decode (tag fctl_50) = str ''fcTL''"
  by (simp_all add: actl_7_def fctl_50_def decode_tag_of)

lemma animated_1x2_ok: "png_ok animated_1x2"
  by (simp add: png_ok_def animated_1x2_def chunk_ok_def ihdr_1x2_def actl_7_def fctl_50_def
      idat_79_def iend_0_def ascii_def tag_of_simps)

lemma parse_animated:
  "extractAllChunks (png_of animated_1x2) =
     Inr [\<lparr>type = str ''IHDR'', data = [0, 0, 0, 1, 0, 0, 0, 2, 8, 6, 0, 0, 0]\<rparr>,
          \<lparr>type = str ''acTL'', data = [0, 0, 0, 7, 0, 0, 0, 0]\<rparr>,
          \<lparr>type = str ''fcTL'',
            data = [0, 0, 0, 0, 0, 0, 0, 1, 0, 0, 0, 2, 0, 0, 0, 0, 0, 0, 0, 0, 0, 50, 3, 232, 0, 0]\<rparr>,
          \<lparr>type = str ''IDAT'', data = [7, 9]\<rparr>, \<lparr>type = str ''IEND'', data = []\<rparr>]"
proof -
  have "list_all chunk_ok animated_1x2"
    using animated_1x2_ok by (simp add: png_ok_def)
  from parse_chunk_ok[OF this] show ?thesis
    by (simp add: animated_1x2_def parsed_examples animated_parsed decode_tag_examples
        animated_tags str_simps)
qed

lemma animated_createAPNG_chunks: "createAPNG_chunks animated 100 = Inr animated_chunks"
  by (simp add: createAPNG_chunks_cases animated_def animated_chunks_def
      parses_def idats_of_def parse_animated str_simps be_val_examples)

lemma seq_numbers_fctl_copy:
  "length a = 4 \<Longrightarrow>
   seq_numbers (createChunk (str ''fcTL'') (a @ b) # cs) = be_val a # seq_numbers cs"
proof -
  assume l: "length a = 4"
  have t: "u8_slice (createChunk (str ''fcTL'') (a @ b)) 4 8 = tag_of ''fcTL''"
    by (simp add: createChunk_tag encode_str tag_of_simps)
  have v: "u8_slice (createChunk (str ''fcTL'') (a @ b)) 8 12 = a"
    by (rule createChunk_first4) (simp_all add: encode_str tag_of_simps l)
  show ?thesis by (simp add: seq_numbers_def t v)
qed

lemma animated_seq_numbers: "seq_numbers animated_chunks = [0, 0]"
proof -
  have o: "seq_numbers (createChunk (str ''IHDR'') x # cs) = seq_numbers cs"
    "seq_numbers (createChunk (str ''acTL'') x # cs) = seq_numbers cs"
    "seq_numbers (createChunk (str ''IDAT'') x # cs) = seq_numbers cs"
    "seq_numbers (createChunk (str ''IEND'') x # cs) = seq_numbers cs" for x cs
    by (simp_all add: seq_numbers_other encode_str tag_of_simps)
  have f: "seq_numbers (createChunk (str ''fcTL'')
      [0, 0, 0, 0, 0, 0, 0, 1, 0, 0, 0, 2, 0, 0, 0, 0, 0, 0, 0, 0, 0, 50, 3, 232, 0, 0] # cs) =
      0 # seq_numbers cs" for cs
    using seq_numbers_fctl_copy[of "[0, 0, 0, 0]"
        "[0, 0, 0, 1, 0, 0, 0, 2, 0, 0, 0, 0, 0, 0, 0, 0, 0, 50, 3, 232, 0, 0]" cs]
    by (simp add: be_val_def)
  show ?thesis
    by (simp add: animated_chunks_def seq_numbers_signature o f createActlChunk_eq seq_numbers_fctl)
qed

lemma animated_createAPNG: "createAPNG animated 100 = Inr (concat animated_chunks)"
  by (simp add: createAPNG_cases animated_createAPNG_chunks)

lemma animated_reparse: "extractAllChunks (concat animated_chunks) = Inr animated_reparsed"
proof -
  have c: "concat animated_chunks = png_of animated_wires"
    by (simp add: animated_chunks_def animated_wires_def png_of_def createChunk_frame
        createActlChunk_eq createFctlChunk_def)
  have f: "list_all framed animated_wires"
    by (simp add: animated_wires_def framed_def encode_str tag_of_simps)
  have d: "str ''IHDR'' \<noteq> str ''IEND''" "str ''acTL'' \<noteq> str ''IEND''"
    "str ''fcTL'' \<noteq> str ''IEND''" "str ''IDAT'' \<noteq> str ''IEND''"
    by (simp_all add: str_simps)
  have t: "through_iend animated_wires = animated_wires"
    by (simp add: animated_wires_def encode_str decode_tag_of d)
  have p: "map parsed animated_wires = animated_reparsed"
    by (simp add: animated_wires_def animated_reparsed_def parsed_def encode_str decode_tag_of
        u32_be_small)
  show ?thesis
    unfolding c extractAllChunks_png_of[OF f] t p ..
qed

lemma animated_control:
  "find (\<lambda>chunk. type chunk = str ''acTL'') animated_reparsed =
     Some \<lparr>type = str ''acTL'', data = [0, 0, 0, 7, 0, 0, 0, 0]\<rparr>"
  "filter (\<lambda>chunk. type chunk = str ''fcTL'') animated_reparsed =
     [\<lparr>type = str ''fcTL'',
        data = [0, 0, 0, 0, 0, 0, 0, 1, 0, 0, 0, 2, 0, 0, 0, 0, 0, 0, 0, 0, 0, 50, 3, 232, 0, 0]\<rparr>,
      \<lparr>type = str ''fcTL'', data = fctl_data 0 1 2 100\<rparr>]"
  by (simp_all add: animated_reparsed_def str_simps)

lemma animated_fields:
  "getUint32 [0, 0, 0, 7, 0, 0, 0, 0] 0 = Inr 7"
  "getUint16 [0, 0, 0, 0, 0, 0, 0, 1, 0, 0, 0, 2, 0, 0, 0, 0, 0, 0, 0, 0, 0, 50, 3, 232, 0, 0] 20 = Inr 50"
  by (simp_all add: getUint32_def getUint16_def u8_slice_def be_val_def)

section \<open>Truncated streams\<close>




section \<open>The delay field\<close>

text \<open>
  C10.  The payload of a frame-control chunk (bytes 8 to 34 of the chunk) holds at
  offset 20 the delay reduced modulo 2^16, for every integer delay; a delay of 65536
  or more wraps around.
\<close>

theorem fctl_delay_wraps:
  "getUint16 (u8_slice (createFctlChunk s w h d) 8 34) 20 = Inr (nat (d mod 2 ^ 16))"
proof -
  have "u8_slice (createFctlChunk s w h d) 8 34 = fctl_data s w h d"
    by (rule fctl_payload)
  moreover have "be_val (u8_slice (fctl_data s w h d) 20 22) = nat (d mod 2 ^ 16)"
  proof -
    have "0 \<le> d mod 2 ^ 16" and "d mod 2 ^ 16 < 2 ^ 16" by simp_all
    then have "nat (d mod 2 ^ 16) < 2 ^ 16" by simp
    then show ?thesis by (simp add: fctl_delay_field)
  qed
  ultimately show ?thesis by (simp add: getUint16_def)
qed

section \<open>The checksum\<close>

text \<open>
  C8.  The table-driven checksum of the code is the reflected CRC-32 with polynomial
  0xEDB88320, initial value 0xFFFFFFFF and final complement, on every input (it is a
  total function); on the empty input it is 0.
\<close>

theorem crc32_is_reflected_crc32:
  "crc32 dat = crc32_reflected dat \<and> crc32 [] = 0"
  using crc32_table_driven crc32_empty by (rule conjI)

section \<open>Failures of the assembler\<close>

text \<open>
  C5 (as amended).  Called with an empty image list, the assembler fails, with no
  error of its own: \<^verbatim>\<open>createAPNG\<close> has no check for an empty list and raises the
  TypeError of reading \<^verbatim>\<open>images[0].length\<close>, which it raises for no other input,
  and \<^verbatim>\<open>convertToAPNG\<close> returns \<^verbatim>\<open>undefined\<close>.
\<close>

theorem createAPNG_empty:
  "(createAPNG images delay = Inl TypeError \<longleftrightarrow> images = []) \<and>
   createAPNG [] delay = Inl TypeError \<and> convertToAPNG [] delay = None"
  using createAPNG_TypeError_iff[of images delay] createAPNG_TypeError_iff[of "[]" delay]
    convertToAPNG_Inl[of "[]" delay TypeError]
  by blast

text \<open>
  C5 as stated fails: what the empty list raises is the TypeError of the host, not an
  error that names the empty input, and \<^verbatim>\<open>convertToAPNG\<close> returns for it what it
  returns for an image without a header chunk.
\<close>

theorem empty_list_raises_host_TypeError:
  "createAPNG [] 100 = Inl TypeError \<and> convertToAPNG [] 100 = None \<and>
   createAPNG headless 100 = Inl (Error ''IHDR chunk not found in the first image'') \<and>
   convertToAPNG headless 100 = None"
  using createAPNG_TypeError_iff[of "[]" 100] convertToAPNG_Inl[of "[]" 100 TypeError]
    headless_createAPNG convertToAPNG_Inl[OF headless_createAPNG]
  by blast

text \<open>
  C6.  The assembler fails with the error "IHDR chunk not found in the first image"
  exactly when the first image is parsed into a chunk stream that holds no IHDR chunk;
  the failure is the result of the call: \<^verbatim>\<open>convertToAPNG\<close> then returns
  \<^verbatim>\<open>undefined\<close>.
\<close>

theorem createAPNG_missing_header:
  "(createAPNG images delay = Inl (Error ''IHDR chunk not found in the first image'') \<longleftrightarrow>
     (\<exists>firstImage rest firstImageChunks.
        images = firstImage # rest \<and> extractAllChunks firstImage = Inr firstImageChunks \<and>
        \<not> list_ex (\<lambda>chunk. type chunk = str ''IHDR'') firstImageChunks)) \<and>
   (createAPNG images delay = Inl (Error ''IHDR chunk not found in the first image'') \<longrightarrow>
      convertToAPNG images delay = None)"
  using createAPNG_Error_iff[of images delay]
    convertToAPNG_Inl[of images delay "Error ''IHDR chunk not found in the first image''"]
  by blast

theorem createAPNG_missing_header_witness:
  "createAPNG headless 100 = Inl (Error ''IHDR chunk not found in the first image'') \<and>
   convertToAPNG headless 100 = None"
  using createAPNG_missing_header[of headless 100] headless_createAPNG
  by blast




section \<open>The serializer\<close>

text \<open>
  C7.  For a type tag of four bytes and a payload of fewer than 2^32 bytes, the
  serialized chunk is the payload length as four big-endian bytes, the tag, the
  payload, and the CRC-32 of tag and payload as four big-endian bytes; and every chunk
  the assembler emits after the signature ends with the CRC-32 of the bytes between
  its length field and its checksum field.
\<close>

theorem createChunk_layout:
  "(length (TextEncoder_encode ty) = 4 \<and> length dat < 2 ^ 32 \<longrightarrow>
      length (createChunk ty dat) = length dat + 12 \<and>
      getUint32 (createChunk ty dat) 0 = Inr (length dat) \<and>
      u8_slice (createChunk ty dat) 4 8 = TextEncoder_encode ty \<and>
      u8_slice (createChunk ty dat) 8 (8 + length dat) = dat \<and>
      getUint32 (createChunk ty dat) (8 + length dat) =
        Inr (unat (crc32 (TextEncoder_encode ty @ dat)))) \<and>
   (createAPNG_chunks images delay = Inr chunks \<longrightarrow> list_all checksum_valid (tl chunks))"
  using createChunk_fields[of ty dat] checksum_valid_emitted[of images delay chunks]
  by blast

theorem createChunk_layout_witness:
  "length (TextEncoder_encode (str ''IDAT'')) = 4 \<and> length [7, 9 :: byte] < 2 ^ 32 \<and>
   createAPNG_chunks two_stills 100 = Inr two_stills_chunks \<and>
   getUint32 (createChunk (str ''IDAT'') [7, 9]) 0 = Inr (length [7, 9 :: byte]) \<and>
   u8_slice (createChunk (str ''IDAT'') [7, 9]) 4 8 = TextEncoder_encode (str ''IDAT'') \<and>
   getUint32 (createChunk (str ''IDAT'') [7, 9]) (8 + length [7, 9 :: byte]) =
     Inr (unat (crc32 (TextEncoder_encode (str ''IDAT'') @ [7, 9]))) \<and>
   list_all checksum_valid (tl two_stills_chunks)"
proof -
  have h: "length (TextEncoder_encode (str ''IDAT'')) = 4 \<and> length [7, 9 :: byte] < 2 ^ 32"
    by (simp add: encode_str tag_of_simps)
  from createChunk_layout[of "str ''IDAT''" "[7, 9]" two_stills 100 two_stills_chunks]
    h two_stills_createAPNG_chunks
  show ?thesis by blast
qed

section \<open>Sequence numbers of the emitted records\<close>

text \<open>
  C1 (as amended).  When the assembler returns, the sequence numbers of the
  frame-control and frame-data records among the chunks it emits, in emission order,
  are: first those of the records it copies from the first image (the chunks before its
  first image-data chunk, which it emits again with their payload as it is), then
  k mod 2^32 for k = 0, ..., N - 1, where N = (number of frames) + (number of
  image-data chunks of the frames after the first): one number for each frame-control
  record of the frame loop, one for each frame-data record, none for the
  animation-control chunk.  So for a well-formed first image that has no frame-control
  and no frame-data chunk before its first image-data chunk, and N at most 2^32, the
  numbers are exactly 0, ..., N - 1.
\<close>

theorem createAPNG_sequence_numbers:
  assumes "createAPNG_chunks images delay = Inr chunks"
  shows "seq_numbers chunks =
           seq_numbers (map (\<lambda>chunk. createChunk (type chunk) (data chunk))
                          (copied_chunks (hd images))) @
           map (\<lambda>k. k mod 2 ^ 32) [0..<length images + sum_list (map idat_count (tl images))] \<and>
         (hd images = png_of cs0 \<and> png_ok cs0 \<and>
          list_all (\<lambda>c. tag c \<noteq> tag_of ''fcTL'' \<and> tag c \<noteq> tag_of ''fdAT'')
            (takeWhile (\<lambda>c. tag c \<noteq> tag_of ''IDAT'') cs0) \<and>
          length images + sum_list (map idat_count (tl images)) \<le> 2 ^ 32 \<longrightarrow>
          seq_numbers chunks = [0..<length images + sum_list (map idat_count (tl images))])"
proof (intro conjI impI)
  show all: "seq_numbers chunks =
      seq_numbers (map (\<lambda>chunk. createChunk (type chunk) (data chunk))
                     (copied_chunks (hd images))) @
      map (\<lambda>k. k mod 2 ^ 32) [0..<length images + sum_list (map idat_count (tl images))]"
    by (rule seq_numbers_all[OF assms])
  assume h: "hd images = png_of cs0 \<and> png_ok cs0 \<and>
          list_all (\<lambda>c. tag c \<noteq> tag_of ''fcTL'' \<and> tag c \<noteq> tag_of ''fdAT'')
            (takeWhile (\<lambda>c. tag c \<noteq> tag_of ''IDAT'') cs0) \<and>
          length images + sum_list (map idat_count (tl images)) \<le> 2 ^ 32"
  then have "seq_numbers (map (\<lambda>chunk. createChunk (type chunk) (data chunk))
                     (copied_chunks (hd images))) = []"
    using seq_numbers_copied[of cs0] by simp
  with all h show "seq_numbers chunks = [0..<length images + sum_list (map idat_count (tl images))]"
    using mod_upt[of "length images + sum_list (map idat_count (tl images))"] by simp
qed

theorem createAPNG_sequence_numbers_witness:
  "createAPNG_chunks two_stills 100 = Inr two_stills_chunks \<and>
   hd two_stills = png_of still_1x2 \<and> png_ok still_1x2 \<and>
   list_all (\<lambda>c. tag c \<noteq> tag_of ''fcTL'' \<and> tag c \<noteq> tag_of ''fdAT'')
     (takeWhile (\<lambda>c. tag c \<noteq> tag_of ''IDAT'') still_1x2) \<and>
   length two_stills + sum_list (map idat_count (tl two_stills)) \<le> 2 ^ 32 \<and>
   seq_numbers two_stills_chunks =
     [0..<length two_stills + sum_list (map idat_count (tl two_stills))]"
proof -
  have a: "hd two_stills = png_of still_1x2" by (simp add: two_stills_def)
  have b: "png_ok still_1x2" using still_1x2_ok by (rule still_png_ok)
  have c: "list_all (\<lambda>c. tag c \<noteq> tag_of ''fcTL'' \<and> tag c \<noteq> tag_of ''fdAT'')
     (takeWhile (\<lambda>c. tag c \<noteq> tag_of ''IDAT'') still_1x2)"
    by (simp add: still_1x2_def ihdr_1x2_def idat_79_def tag_of_simps)
  have h: "length two_stills + sum_list (map idat_count (tl two_stills)) \<le> 2 ^ 32"
    by (simp add: two_stills_count)
  from createAPNG_sequence_numbers[OF two_stills_createAPNG_chunks, of still_1x2] a b c h
    two_stills_createAPNG_chunks
  show ?thesis by blast
qed

text \<open>
  C1 as stated fails twice.  In its count N = 1 + frames + ...: for two frames with one
  image-data chunk each the numbers are 0, 1, 2, not 0, ..., 3.  And in "no repeats" for
  every accepted input: the image that is animated already is accepted, and the
  frame-control record copied from it and the one of the frame loop both carry 0.
\<close>

theorem sequence_count_not_one_more:
  "createAPNG_chunks two_stills 100 = Inr two_stills_chunks \<and>
   seq_numbers two_stills_chunks = [0, 1, 2] \<and>
   [0, 1, 2] \<noteq> [0..<1 + length two_stills * 1 + sum_list (map idat_count (tl two_stills))] \<and>
   createAPNG_chunks animated 100 = Inr animated_chunks \<and>
   seq_numbers animated_chunks = [0, 0]"
proof -
  have "copied_chunks (hd two_stills) =
      [\<lparr>type = str ''IHDR'', data = [0, 0, 0, 1, 0, 0, 0, 2, 8, 6, 0, 0, 0]\<rparr>]"
    by (simp add: two_stills_def copied_chunks_def parse_still_1x2 str_simps)
  then have "seq_numbers (map (\<lambda>chunk. createChunk (type chunk) (data chunk))
      (copied_chunks (hd two_stills))) = []"
    by (simp add: seq_numbers_other encode_str tag_of_simps)
  then have "seq_numbers two_stills_chunks = map (\<lambda>k. k mod 2 ^ 32) [0..<3]"
    using seq_numbers_all[OF two_stills_createAPNG_chunks] by (simp only: two_stills_count append_Nil)
  also have "[0..<3] = [0, 1, 2::nat]"
    by (simp add: upt_conv_Cons)
  finally have a: "seq_numbers two_stills_chunks = [0, 1, 2]"
    by simp
  have "length [0..<1 + length two_stills * 1 + sum_list (map idat_count (tl two_stills))] = 4"
    using two_stills_count by simp
  then have b: "[0, 1, 2] \<noteq> [0..<1 + length two_stills * 1 + sum_list (map idat_count (tl two_stills))]"
    by (auto dest: arg_cong[where f = length])
  from two_stills_createAPNG_chunks a b animated_createAPNG_chunks animated_seq_numbers
  show ?thesis by blast
qed

section \<open>Re-parsing the assembled stream\<close>

text \<open>
  C2 (as amended).  For every non-empty list of well-formed images (given by their wire
  chunks) whose first image has no animation-control and no frame-control chunk before
  its first image-data chunk, and every delay d, the assembler returns a stream that the
  chunk parser reads back into a chunk stream whose IHDR payload holds at offsets 0 and 4
  the width and height that the IHDR chunk of the first image holds, whose acTL payload
  holds the number of images (modulo 2^32) as its frame count, and which has exactly as
  many fcTL chunks as there are images, each with delay numerator d mod 2^16 (d itself
  for 0 <= d < 2^16) and denominator 1000.
\<close>

theorem reparse_assembled:
  assumes "css \<noteq> []" and "list_all png_ok css" and "no_control_before_idat (hd css)"
  shows "\<exists>out cs ihdr actl cs0 ihdr0 w h.
      createAPNG (map png_of css) d = Inr out \<and> extractAllChunks out = Inr cs \<and>
      extractAllChunks (hd (map png_of css)) = Inr cs0 \<and>
      find (\<lambda>chunk. type chunk = str ''IHDR'') cs0 = Some ihdr0 \<and>
      getUint32 (data ihdr0) 0 = Inr w \<and> getUint32 (data ihdr0) 4 = Inr h \<and>
      find (\<lambda>chunk. type chunk = str ''IHDR'') cs = Some ihdr \<and>
      getUint32 (data ihdr) 0 = Inr w \<and> getUint32 (data ihdr) 4 = Inr h \<and>
      find (\<lambda>chunk. type chunk = str ''acTL'') cs = Some actl \<and>
      getUint32 (data actl) 0 = Inr (length css mod 2 ^ 32) \<and>
      length (filter (\<lambda>chunk. type chunk = str ''fcTL'') cs) = length css \<and>
      list_all (\<lambda>chunk. getUint16 (data chunk) 20 = Inr (nat (d mod 2 ^ 16)) \<and>
                        getUint16 (data chunk) 22 = Inr 1000)
        (filter (\<lambda>chunk. type chunk = str ''fcTL'') cs)"
proof -
  define ws where "ws = assembled_wires css d"
  define ih where "ih = hd (hd css)"
  define w where "w = be_val (u8_slice (payload ih) 0 4)"
  define h where "h = be_val (u8_slice (payload ih) 4 8)"
  define fw where "fw = frame_wires (map (\<lambda>cs. idats_of (png_of cs)) css) w h d 0 0"
  from assms(1,2) have s0: "png_ok (hd css)" by (cases css) simp_all
  note facts = assembled_wires_facts[OF assms(1,2), of d, folded ws_def ih_def w_def h_def fw_def]
  have out: "createAPNG (map png_of css) d = Inr (png_of ws)"
    unfolding ws_def by (rule png_ok_createAPNG[OF assms(1,2)])
  have re: "extractAllChunks (png_of ws) = Inr (map parsed ws)"
    unfolding ws_def by (rule png_ok_reparse[OF assms(1,2)])
  have hd_img: "hd (map png_of css) = png_of (hd css)"
    using assms(1) by (simp add: hd_map)
  note first = png_ok_first_header[OF s0, folded ih_def]
  have len0: "8 \<le> length (payload ih)" using first(3) by (simp add: parsed_def)
  have size0: "getUint32 (data (parsed ih)) 0 = Inr w \<and> getUint32 (data (parsed ih)) 4 = Inr h"
    using getUint32_8[OF first(3)] by (simp add: w_def h_def parsed_def)
  define ihdr where "ihdr = parsed (wire (type (parsed ih)) (payload ih))"
  have f1: "find (\<lambda>chunk. type chunk = str ''IHDR'') (map parsed ws) = Some ihdr"
    by (simp add: find_parsed(1)[OF facts(2)] facts(4) ihdr_def)
  have size1: "getUint32 (data ihdr) 0 = Inr w \<and> getUint32 (data ihdr) 4 = Inr h"
    using getUint32_8[OF len0] by (simp add: ihdr_def w_def h_def parsed_def)
  define actl where "actl = parsed (wire (str ''acTL'') (u32_be (length css) @ u32_be 0))"
  have f2: "find (\<lambda>chunk. type chunk = str ''acTL'') (map parsed ws) = Some actl"
    by (simp add: find_parsed(2)[OF facts(2)] facts(5)[OF assms(3)] actl_def)
  have "u8_slice (u32_be (length css) @ u32_be 0) 0 4 = u32_be (length css)"
    using slice_mid[of "[]" 0 "u32_be (length css)" 4 "u32_be 0"] by simp
  then have frames: "getUint32 (data actl) 0 = Inr (length css mod 2 ^ 32)"
    by (simp add: actl_def parsed_def getUint32_def be_val_u32_be)
  have fc: "filter (\<lambda>chunk. type chunk = str ''fcTL'') (map parsed ws) =
      map parsed (filter (\<lambda>c. tag c = tag_of ''fcTL'') fw)"
    by (simp add: find_parsed(3)[OF facts(2)] facts(6)[OF assms(3)] fw_def w_def h_def)
  have count: "length (filter (\<lambda>chunk. type chunk = str ''fcTL'') (map parsed ws)) = length css"
    unfolding fc fw_def by (simp add: frame_wires_fctl_count)
  have delays: "list_all (\<lambda>chunk. getUint16 (data chunk) 20 = Inr (nat (d mod 2 ^ 16)) \<and>
                        getUint16 (data chunk) 22 = Inr 1000)
        (filter (\<lambda>chunk. type chunk = str ''fcTL'') (map parsed ws))"
    unfolding fc list_all_iff
  proof
    fix chunk assume "chunk \<in> set (map parsed (filter (\<lambda>c. tag c = tag_of ''fcTL'') fw))"
    then obtain c where c: "c \<in> set fw" "tag c = tag_of ''fcTL''" and chunk: "chunk = parsed c"
      by auto
    from frame_wires_mem[OF c(1)[unfolded fw_def]] c(2) obtain s' where "payload c = fctl_data s' w h d"
      by (auto simp: tag_of_simps)
    then show "getUint16 (data chunk) 20 = Inr (nat (d mod 2 ^ 16)) \<and> getUint16 (data chunk) 22 = Inr 1000"
      using fctl_fields[of s' w h d] by (simp add: chunk parsed_def)
  qed
  from out re first(1,2) size0 f1 size1 f2 frames count delays show ?thesis
    unfolding hd_img by blast
qed

theorem reparse_assembled_witness:
  "[still_1x2, still_1x2] \<noteq> [] \<and> list_all png_ok [still_1x2, still_1x2] \<and>
   no_control_before_idat (hd [still_1x2, still_1x2]) \<and>
   (\<exists>out cs ihdr actl cs0 ihdr0 w h.
      createAPNG (map png_of [still_1x2, still_1x2]) 100 = Inr out \<and> extractAllChunks out = Inr cs \<and>
      extractAllChunks (hd (map png_of [still_1x2, still_1x2])) = Inr cs0 \<and>
      find (\<lambda>chunk. type chunk = str ''IHDR'') cs0 = Some ihdr0 \<and>
      getUint32 (data ihdr0) 0 = Inr w \<and> getUint32 (data ihdr0) 4 = Inr h \<and>
      find (\<lambda>chunk. type chunk = str ''IHDR'') cs = Some ihdr \<and>
      getUint32 (data ihdr) 0 = Inr w \<and> getUint32 (data ihdr) 4 = Inr h \<and>
      find (\<lambda>chunk. type chunk = str ''acTL'') cs = Some actl \<and>
      getUint32 (data actl) 0 = Inr (length [still_1x2, still_1x2] mod 2 ^ 32) \<and>
      length (filter (\<lambda>chunk. type chunk = str ''fcTL'') cs) = length [still_1x2, still_1x2] \<and>
      list_all (\<lambda>chunk. getUint16 (data chunk) 20 = Inr (nat (100 mod 2 ^ 16)) \<and>
                        getUint16 (data chunk) 22 = Inr 1000)
        (filter (\<lambda>chunk. type chunk = str ''fcTL'') cs))"
proof -
  have a: "[still_1x2, still_1x2] \<noteq> []" by simp
  have b: "list_all png_ok [still_1x2, still_1x2]" by (simp add: still_png_ok[OF still_1x2_ok])
  have c: "no_control_before_idat (hd [still_1x2, still_1x2])"
    by (simp add: still_no_control[OF still_1x2_ok])
  from a b c reparse_assembled[OF a b c, of 100] show ?thesis by (intro conjI)
qed

text \<open>
  C2 as stated fails: the image that is animated already is well formed, and the
  assembler copies its animation-control and frame-control chunks.  Assembled alone
  with a delay of 100 and parsed again, the stream has a first acTL chunk with a frame
  count of 7 for one image, and two fcTL chunks for one image, the first of them with a
  delay numerator of 50.
\<close>

theorem animated_first_image_reparsed:
  "png_ok animated_1x2 \<and> animated = map png_of [animated_1x2] \<and>
   createAPNG animated 100 = Inr (concat animated_chunks) \<and>
   extractAllChunks (concat animated_chunks) = Inr animated_reparsed \<and>
   find (\<lambda>chunk. type chunk = str ''acTL'') animated_reparsed =
     Some \<lparr>type = str ''acTL'', data = [0, 0, 0, 7, 0, 0, 0, 0]\<rparr> \<and>
   getUint32 [0, 0, 0, 7, 0, 0, 0, 0] 0 = Inr 7 \<and>
   filter (\<lambda>chunk. type chunk = str ''fcTL'') animated_reparsed =
     [\<lparr>type = str ''fcTL'',
        data = [0, 0, 0, 0, 0, 0, 0, 1, 0, 0, 0, 2, 0, 0, 0, 0, 0, 0, 0, 0, 0, 50, 3, 232, 0, 0]\<rparr>,
      \<lparr>type = str ''fcTL'', data = fctl_data 0 1 2 100\<rparr>] \<and>
   getUint16 [0, 0, 0, 0, 0, 0, 0, 1, 0, 0, 0, 2, 0, 0, 0, 0, 0, 0, 0, 0, 0, 50, 3, 232, 0, 0] 20 =
     Inr 50"
proof -
  have "animated = map png_of [animated_1x2]" by (simp add: animated_def)
  with animated_1x2_ok animated_createAPNG animated_reparse animated_control animated_fields
  show ?thesis by (intro conjI)
qed

section \<open>Signature and end marker\<close>

text \<open>
  C9.  For every non-empty list of well-formed still images, whatever their widths
  and heights, the assembler returns a buffer that begins with the eight bytes of the
  PNG signature and ends with an IEND chunk: a length field of 0, the tag IEND, no
  payload, and the CRC-32 of the tag, 0xAE426082.
\<close>

theorem createAPNG_signature_and_end:
  assumes "css \<noteq> []" and "list_all still_png css"
  shows "\<exists>out. createAPNG (map png_of css) delay = Inr out \<and>
      take 8 out = [0x89, 0x50, 0x4E, 0x47, 0x0D, 0x0A, 0x1A, 0x0A] \<and>
      drop (length out - 12) out = [0, 0, 0, 0, 73, 69, 78, 68, 0xAE, 0x42, 0x60, 0x82] \<and>
      getUint32 (drop (length out - 12) out) 0 = Inr 0 \<and>
      u8_slice (drop (length out - 12) out) 4 8 = tag_of ''IEND'' \<and>
      getUint32 (drop (length out - 12) out) 8 = Inr (unat (crc32 (tag_of ''IEND'')))"
proof -
  define out where "out = png_of (assembled_wires css delay)"
  have r: "createAPNG (map png_of css) delay = Inr out"
    unfolding out_def by (rule still_createAPNG[OF assms])
  from createAPNG_Inr_ends[OF r] have t: "take 8 out = PNG_SIGNATURE"
    and e: "drop (length out - 12) out = createChunk (str ''IEND'') []"
    by (simp_all add: iend_chunk)
  have l: "length (TextEncoder_encode (str ''IEND'')) = 4" "length ([] :: bytes) < 2 ^ 32"
    by (simp_all add: encode_str tag_of_simps)
  from createChunk_fields(2,3,5)[OF l]
  have "getUint32 (createChunk (str ''IEND'') []) 0 = Inr 0"
    and "u8_slice (createChunk (str ''IEND'') []) 4 8 = tag_of ''IEND''"
    and "getUint32 (createChunk (str ''IEND'') []) 8 = Inr (unat (crc32 (tag_of ''IEND'')))"
    by (simp_all add: encode_str)
  with r t e show ?thesis
    by (simp add: iend_chunk PNG_SIGNATURE_def)
qed

theorem createAPNG_signature_and_end_witness:
  "[still_1x2] \<noteq> [] \<and> list_all still_png [still_1x2] \<and>
   (\<exists>out. createAPNG (map png_of [still_1x2]) 100 = Inr out \<and>
      take 8 out = [0x89, 0x50, 0x4E, 0x47, 0x0D, 0x0A, 0x1A, 0x0A] \<and>
      drop (length out - 12) out = [0, 0, 0, 0, 73, 69, 78, 68, 0xAE, 0x42, 0x60, 0x82] \<and>
      getUint32 (drop (length out - 12) out) 0 = Inr 0 \<and>
      u8_slice (drop (length out - 12) out) 4 8 = tag_of ''IEND'' \<and>
      getUint32 (drop (length out - 12) out) 8 = Inr (unat (crc32 (tag_of ''IEND''))))"
proof -
  have a: "[still_1x2] \<noteq> []" by simp
  have b: "list_all still_png [still_1x2]" by (simp add: still_1x2_ok)
  from a b createAPNG_signature_and_end[OF a b, of 100] show ?thesis by (intro conjI)
qed

end
